theory Spec2Isabelle
  imports Complex_Main
begin

section \<open>Frame extractor (VideoFrameExtractor)\<close>

text \<open>
  Sample times and progress values are idealised as mathematical reals. The canvas size
  is computed with the rounding of IEEE doubles, because the truncation that follows it
  can turn a rounding error into a whole pixel. Counts and pixel dimensions, which the
  DOM stores as unsigned integers, are naturals.
\<close>

definition FRAME_SIZE :: nat where
  "FRAME_SIZE = 100"

text \<open>The fields of HTMLVideoElement that \<open>extractFrames\<close> reads once metadata is loaded.\<close>

record video =
  duration :: real
  videoWidth :: nat
  videoHeight :: nat

text \<open>The fields \<open>name\<close> and \<open>type\<close> of File, which the component reads.\<close>

record js_file =
  file_name :: string
  file_type :: string

text \<open>The component's React state: \<open>isExtracting\<close>, \<open>progress\<close>, \<open>videoFile\<close>.\<close>

record extractor_state =
  isExtracting :: bool
  progress :: real
  videoFile :: "js_file option"

text \<open>
  Everything the component does to the outside, in program order: the state setters,
  the writes to \<open>video.currentTime\<close>, the \<open>drawImage\<close> calls with the canvas size
  they pass, the toasts, and the \<open>onFramesExtracted\<close> callback.
\<close>

datatype effect =
    SetIsExtracting bool
  | SetProgress real
  | SetVideoFile js_file
  | SetCurrentTime real
  | DrawImage nat nat
  | ToastSuccess string
  | ToastExtracted nat
  | ToastError string
  | ConsoleError string
  | OnFramesExtracted "string list"

text \<open>
  An awaited computation either returns, or throws (the promise rejects), or stays
  pending for ever (the promise never settles).
\<close>

datatype 'a outcome = Returned 'a | Threw | Pending

text \<open>What loading the object URL into the video element leads to.\<close>

datatype load_result = LoadedMetadata video | LoadError | LoadNever

text \<open>
  The host platform, as far as the component depends on it: whether the two refs and the
  2D context are there, what loading the file does, whether the \<open>seeked\<close> event fires
  for the i-th seek (to the given time), and what \<open>drawImage\<close> followed by
  \<open>toDataURL\<close> gives at the i-th sample (\<open>None\<close> when one of them raises).
\<close>

record platform =
  videoRef :: bool
  canvasRef :: bool
  context2d :: bool
  load :: load_result
  seeked :: "nat \<Rightarrow> real \<Rightarrow> bool"
  capture :: "nat \<Rightarrow> real \<Rightarrow> string option"

subsection \<open>Canvas sizing\<close>

definition maxDimension :: nat where
  "maxDimension = 800"

text \<open>
  \<open>canvas.width\<close> and \<open>canvas.height\<close> are \<open>unsigned long\<close> attributes: an assigned
  number is truncated towards zero and reduced modulo \<open>2 ^ 32\<close> when it is stored, and
  the source reads the stored value back (\<open>canvas.width / aspectRatio\<close>,
  \<open>drawImage(video, 0, 0, canvas.width, canvas.height)\<close>).
\<close>

definition to_unsigned_long :: "real \<Rightarrow> nat" where
  "to_unsigned_long x = nat ((if 0 \<le> x then \<lfloor>x\<rfloor> else \<lceil>x\<rceil>) mod 2 ^ 32)"

text \<open>
  The arithmetic of doubles. A real number that is not zero lies in one binade
  \<open>2 ^ e \<le> |x| < 2 ^ (e + 1)\<close>; a double has 53 significant bits, so the result of
  an operation is its exact value scaled by \<open>2 ^ (52 - e)\<close>, rounded to the nearest
  integer (to the even one when halfway) and scaled back. Overflow and subnormal numbers
  are left out: the quotients and products of pixel sizes below \<open>2 ^ 32\<close> are far from
  both.
\<close>

definition round_half_even :: "real \<Rightarrow> int" where
  "round_half_even y =
     (let f = \<lfloor>y\<rfloor>; d = y - of_int f
      in if d < 1 / 2 then f else if 1 / 2 < d then f + 1 else if even f then f else f + 1)"

definition binade :: "real \<Rightarrow> int" where
  "binade x = \<lfloor>log 2 \<bar>x\<bar>\<rfloor>"

definition round_double :: "real \<Rightarrow> real" where
  "round_double x =
     (if x = 0 then 0
      else of_int (round_half_even (x * 2 powi (52 - binade x))) * 2 powi (binade x - 52))"

text \<open>
  Lines 34 to 43 of \<open>extractFrames\<close>: one rounding for the aspect ratio and one for
  the quotient or product that gives the dependent edge (\<open>Math.min\<close> of two integers is
  exact). With \<open>videoHeight = 0\<close> JavaScript divides by zero (\<open>Infinity\<close> or
  \<open>NaN\<close>), and the canvas attribute stores 0 for the dependent dimension; HOL's
  \<open>x / 0 = 0\<close> gives the same stored sizes.
\<close>

definition canvas_size :: "video \<Rightarrow> nat \<times> nat" where
  "canvas_size v =
     (let aspectRatio = round_double (real (videoWidth v) / real (videoHeight v)) in
      if videoWidth v > videoHeight v then
        let width = to_unsigned_long (real (min maxDimension (videoWidth v)));
            height = to_unsigned_long (round_double (real width / aspectRatio))
        in (width, height)
      else
        let height = to_unsigned_long (real (min maxDimension (videoHeight v)));
            width = to_unsigned_long (round_double (real height * aspectRatio))
        in (width, height))"

subsection \<open>The sampling loop\<close>

text \<open>
  The \<open>for\<close> loop of \<open>extractFrames\<close> from index \<open>i\<close> on, with the \<open>frames\<close> array
  built so far. It gives the effects from there on and how the loop ends.
\<close>

function sample_loop ::
  "platform \<Rightarrow> real \<Rightarrow> nat \<times> nat \<Rightarrow> nat \<Rightarrow> nat \<Rightarrow> string list \<Rightarrow> effect list \<times> string list outcome"
where
  "sample_loop pf interval cv frameCount i frames =
     (if i < frameCount then
        (let time = real i * interval in
         if \<not> seeked pf i time then ([SetCurrentTime time], Pending)
         else
           (case capture pf i time of
              None \<Rightarrow> ([SetCurrentTime time, DrawImage (fst cv) (snd cv)], Threw)
            | Some frameData \<Rightarrow>
                (let rest = sample_loop pf interval cv frameCount (Suc i) (frames @ [frameData])
                 in (SetCurrentTime time # DrawImage (fst cv) (snd cv)
                       # SetProgress (real (i + 1) / real frameCount * 100) # fst rest,
                     snd rest))))
      else ([], Returned frames))"
  by pat_completeness auto
termination
  by (relation "measure (\<lambda>(pf, interval, cv, frameCount, i, frames). frameCount - i)") auto

declare sample_loop.simps [simp del]

definition extractFrames :: "platform \<Rightarrow> video \<Rightarrow> nat \<Rightarrow> effect list \<times> string list outcome" where
  "extractFrames pf v frameCount =
     (if \<not> canvasRef pf then ([], Returned [])
      else if \<not> context2d pf then ([], Returned [])
      else
        (let interval = duration v / real frameCount
         in sample_loop pf interval (canvas_size v) frameCount 0 []))"

text \<open>The times the trace seeks to, in order.\<close>

fun seek_times :: "effect list \<Rightarrow> real list" where
  "seek_times [] = []"
| "seek_times (SetCurrentTime t # es) = t # seek_times es"
| "seek_times (e # es) = seek_times es"

subsection \<open>Selecting a file and running an extraction\<close>

text \<open>\<open>String.prototype.startsWith\<close> at position 0.\<close>

definition startsWith :: "string \<Rightarrow> string \<Rightarrow> bool" where
  "startsWith s p = (take (length p) s = p)"

text \<open>
  \<open>handleFileSelect\<close>, given \<open>event.target.files?.[0]\<close> (\<open>None\<close> when no file was
  chosen).
\<close>

definition handleFileSelect :: "js_file option \<Rightarrow> effect list" where
  "handleFileSelect chosen =
     (case chosen of
        None \<Rightarrow> []
      | Some f \<Rightarrow>
          if \<not> startsWith (file_type f) ''video/'' then
            [ToastError ''Please select a valid video file'']
          else
            [SetVideoFile f, ToastSuccess ''Video loaded! Click Extract Frames to begin.''])"

text \<open>
  The body of the \<open>try\<close> block of \<open>handleExtractFrames\<close>: load the video, announce it,
  sample, and hand the frames over or throw.
\<close>

definition try_block :: "platform \<Rightarrow> effect list \<times> unit outcome" where
  "try_block pf =
     (case load pf of
        LoadNever \<Rightarrow> ([], Pending)
      | LoadError \<Rightarrow> ([], Threw)
      | LoadedMetadata v \<Rightarrow>
          (let announced = [ToastSuccess ''Video loaded successfully, extracting frames...''];
               extraction = extractFrames pf v FRAME_SIZE
           in case snd extraction of
                Pending \<Rightarrow> (announced @ fst extraction, Pending)
              | Threw \<Rightarrow> (announced @ fst extraction, Threw)
              | Returned frames \<Rightarrow>
                  if length frames > 0 then
                    (announced @ fst extraction
                       @ [OnFramesExtracted frames, ToastExtracted (length frames)],
                     Returned ())
                  else (announced @ fst extraction, Threw)))"

text \<open>
  \<open>handleExtractFrames\<close>: the guard, the two setters, the \<open>try\<close> block, the
  \<open>catch\<close> clause when it threw, and the \<open>finally\<close> clause unless the block never
  settles.
\<close>

definition handleExtractFrames :: "platform \<Rightarrow> extractor_state \<Rightarrow> effect list \<times> unit outcome" where
  "handleExtractFrames pf s =
     (if videoFile s = None \<or> \<not> videoRef pf then ([], Returned ())
      else
        (let started = [SetIsExtracting True, SetProgress 0];
             finally = [SetIsExtracting False, SetProgress 0];
             body = try_block pf
         in case snd body of
              Pending \<Rightarrow> (started @ fst body, Pending)
            | Threw \<Rightarrow>
                (started @ fst body
                   @ [ConsoleError ''Error extracting frames:'',
                      ToastError ''Failed to extract frames from video'']
                   @ finally,
                 Returned ())
            | Returned u \<Rightarrow> (started @ fst body @ finally, Returned ())))"

text \<open>The state setters among the effects, applied to the component's state.\<close>

fun apply_effect :: "extractor_state \<Rightarrow> effect \<Rightarrow> extractor_state" where
  "apply_effect s (SetIsExtracting b) = s\<lparr>isExtracting := b\<rparr>"
| "apply_effect s (SetProgress p) = s\<lparr>progress := p\<rparr>"
| "apply_effect s (SetVideoFile f) = s\<lparr>videoFile := Some f\<rparr>"
| "apply_effect s e = s"

definition apply_effects :: "extractor_state \<Rightarrow> effect list \<Rightarrow> extractor_state" where
  "apply_effects s es = foldl apply_effect s es"

text \<open>
  The progress values set while \<open>isExtracting\<close> is true, in order: the values the
  progress bar can show, since it is rendered only then. The flag is the first argument.
\<close>

fun progress_reports :: "bool \<Rightarrow> effect list \<Rightarrow> real list" where
  "progress_reports b [] = []"
| "progress_reports b (SetIsExtracting b' # es) = progress_reports b' es"
| "progress_reports b (SetProgress p # es) =
     (if b then p # progress_reports b es else progress_reports b es)"
| "progress_reports b (e # es) = progress_reports b es"

text \<open>The frame sequences handed to \<open>onFramesExtracted\<close>, in order.\<close>

fun handed_over :: "effect list \<Rightarrow> string list list" where
  "handed_over [] = []"
| "handed_over (OnFramesExtracted fs # es) = fs # handed_over es"
| "handed_over (e # es) = handed_over es"

text \<open>The canvas sizes passed to \<open>drawImage\<close>, in order.\<close>

fun drawn_sizes :: "effect list \<Rightarrow> (nat \<times> nat) list" where
  "drawn_sizes [] = []"
| "drawn_sizes (DrawImage w h # es) = (w, h) # drawn_sizes es"
| "drawn_sizes (e # es) = drawn_sizes es"

text \<open>
  A platform on which an extraction runs to its end: the refs and the context are there,
  the video loads, every seek of the loop is answered and every frame is captured.
\<close>

definition answers :: "platform \<Rightarrow> real \<Rightarrow> nat \<Rightarrow> bool" where
  "answers pf interval frameCount =
     (\<forall>i < frameCount. seeked pf i (real i * interval) \<and> capture pf i (real i * interval) \<noteq> None)"

text \<open>The sentence of the page \<open>Index\<close> (Auto Extract card) about the number of frames.\<close>

definition auto_extract_copy :: string where
  "auto_extract_copy = ''Automatically extracts 50 optimized frames from your video''"

section \<open>Zoom viewer (InfiniteZoomViewer)\<close>

text \<open>
  \<open>currentFrameIndex\<close> is a JavaScript number that the handlers compute with \<open>+\<close>,
  \<open>%\<close>, \<open>Math.min\<close> and \<open>Math.max\<close> from integers; \<open>%\<close> by zero gives \<open>NaN\<close>, which
  all four operations propagate.
\<close>

datatype number = Finite int | NaN

fun js_add :: "number \<Rightarrow> number \<Rightarrow> number" where
  "js_add (Finite a) (Finite b) = Finite (a + b)"
| "js_add a b = NaN"

text \<open>The remainder \<open>%\<close>: it truncates, so its sign is the dividend's.\<close>

fun js_rem :: "number \<Rightarrow> number \<Rightarrow> number" where
  "js_rem (Finite a) (Finite b) =
     (if b = 0 then NaN else Finite (sgn a * (\<bar>a\<bar> mod \<bar>b\<bar>)))"
| "js_rem a b = NaN"

fun js_min :: "number \<Rightarrow> number \<Rightarrow> number" where
  "js_min (Finite a) (Finite b) = Finite (min a b)"
| "js_min a b = NaN"

fun js_max :: "number \<Rightarrow> number \<Rightarrow> number" where
  "js_max (Finite a) (Finite b) = Finite (max a b)"
| "js_max a b = NaN"

record viewer_state =
  currentFrameIndex :: number
  isAutoPlaying :: bool
  zoomLevel :: real
  panPosition :: "real \<times> real"
  isDragging :: bool
  lastMousePos :: "real \<times> real"

text \<open>The arguments of the six \<open>useState\<close> calls.\<close>

definition initial_state :: viewer_state where
  "initial_state =
     \<lparr>currentFrameIndex = Finite 0, isAutoPlaying = False, zoomLevel = 1,
      panPosition = (0, 0), isDragging = False, lastMousePos = (0, 0)\<rparr>"

text \<open>\<open>frames.length\<close> as a JavaScript number.\<close>

definition frames_length :: "string list \<Rightarrow> number" where
  "frames_length frames = Finite (int (length frames))"

definition handleWheel :: "string list \<Rightarrow> real \<Rightarrow> viewer_state \<Rightarrow> viewer_state" where
  "handleWheel frames deltaY s =
     (let delta = (if deltaY > 0 then Finite 1 else Finite (- 1));
          newIndex = js_add (currentFrameIndex s) delta
      in s\<lparr>currentFrameIndex :=
             js_max (Finite 0) (js_min (js_add (frames_length frames) (Finite (- 1))) newIndex)\<rparr>)"

definition handleMouseDown :: "real \<Rightarrow> real \<Rightarrow> viewer_state \<Rightarrow> viewer_state" where
  "handleMouseDown clientX clientY s = s\<lparr>isDragging := True, lastMousePos := (clientX, clientY)\<rparr>"

definition handleMouseMove :: "real \<Rightarrow> real \<Rightarrow> viewer_state \<Rightarrow> viewer_state" where
  "handleMouseMove clientX clientY s =
     (if \<not> isDragging s then s
      else
        (let deltaX = clientX - fst (lastMousePos s);
             deltaY = clientY - snd (lastMousePos s)
         in s\<lparr>panPosition := (fst (panPosition s) + deltaX, snd (panPosition s) + deltaY),
               lastMousePos := (clientX, clientY)\<rparr>))"

definition handleMouseUp :: "viewer_state \<Rightarrow> viewer_state" where
  "handleMouseUp s = s\<lparr>isDragging := False\<rparr>"

definition reset :: "viewer_state \<Rightarrow> viewer_state" where
  "reset s = s\<lparr>zoomLevel := 1, panPosition := (0, 0), currentFrameIndex := Finite 0,
               isAutoPlaying := False\<rparr>"

definition toggleAutoPlay :: "viewer_state \<Rightarrow> viewer_state" where
  "toggleAutoPlay s = s\<lparr>isAutoPlaying := \<not> isAutoPlaying s\<rparr>"

text \<open>The \<open>switch\<close> of \<open>handleKeyPress\<close> on \<open>e.key\<close>; any other key falls through.\<close>

definition handleKeyPress :: "string list \<Rightarrow> string \<Rightarrow> viewer_state \<Rightarrow> viewer_state" where
  "handleKeyPress frames key s =
     (if key = ''ArrowLeft'' then
        s\<lparr>currentFrameIndex :=
            js_rem (js_add (js_add (currentFrameIndex s) (Finite (- 1))) (frames_length frames))
                   (frames_length frames)\<rparr>
      else if key = ''ArrowRight'' then
        s\<lparr>currentFrameIndex :=
            js_rem (js_add (currentFrameIndex s) (Finite 1)) (frames_length frames)\<rparr>
      else if key = '' '' then s\<lparr>isAutoPlaying := \<not> isAutoPlaying s\<rparr>
      else if key = ''r'' then reset s
      else s)"

text \<open>The callback of the auto-play \<open>setInterval\<close>.\<close>

definition autoPlayTick :: "string list \<Rightarrow> viewer_state \<Rightarrow> viewer_state" where
  "autoPlayTick frames s =
     s\<lparr>currentFrameIndex :=
         js_rem (js_add (currentFrameIndex s) (Finite 1)) (frames_length frames)\<rparr>"

text \<open>
  What can happen to the viewer: a wheel event with its \<open>deltaY\<close>, a key with its
  \<open>key\<close>, the mouse events with the pointer position, a value delivered by either
  slider, a click on either button, and a tick of the timer.
\<close>

datatype input =
    Wheel real
  | KeyDown string
  | MouseDown real real
  | MouseMove real real
  | MouseUp
  | MouseLeave
  | FrameSlider int
  | ZoomSlider real
  | PlayButton
  | ResetButton
  | Tick

text \<open>
  Which handler an input reaches. The \<open>keydown\<close> listener is on \<open>window\<close>, installed
  by an effect whatever \<open>frames\<close> is. The timer exists only while
  \<open>isAutoPlaying && frames.length > 0\<close>. The wheel listener, the mouse handlers, the
  sliders and the buttons belong to elements that are rendered only when
  \<open>frames.length\<close> is not 0, after the early return of the placeholder.
\<close>

definition dispatch :: "string list \<Rightarrow> viewer_state \<Rightarrow> input \<Rightarrow> viewer_state" where
  "dispatch frames s ev =
     (case ev of
        KeyDown key \<Rightarrow> handleKeyPress frames key s
      | Tick \<Rightarrow> if isAutoPlaying s \<and> length frames > 0 then autoPlayTick frames s else s
      | Wheel deltaY \<Rightarrow> if length frames = 0 then s else handleWheel frames deltaY s
      | MouseDown x y \<Rightarrow> if length frames = 0 then s else handleMouseDown x y s
      | MouseMove x y \<Rightarrow> if length frames = 0 then s else handleMouseMove x y s
      | MouseUp \<Rightarrow> if length frames = 0 then s else handleMouseUp s
      | MouseLeave \<Rightarrow> if length frames = 0 then s else handleMouseUp s
      | FrameSlider v \<Rightarrow> if length frames = 0 then s else s\<lparr>currentFrameIndex := Finite v\<rparr>
      | ZoomSlider v \<Rightarrow> if length frames = 0 then s else s\<lparr>zoomLevel := v\<rparr>
      | PlayButton \<Rightarrow> if length frames = 0 then s else toggleAutoPlay s
      | ResetButton \<Rightarrow> if length frames = 0 then s else reset s)"

text \<open>
  The values a slider can deliver, from the props it is given: the frame slider has
  \<open>max = frames.length - 1\<close> and \<open>step = 1\<close> (its minimum is the control's default,
  0), the zoom slider \<open>min = 0.5\<close> and \<open>max = 5\<close>. The Slider component itself is not
  part of the sources at hand.
\<close>

definition deliverable :: "string list \<Rightarrow> input \<Rightarrow> bool" where
  "deliverable frames ev =
     (case ev of
        FrameSlider v \<Rightarrow> 0 \<le> v \<and> v \<le> int (length frames) - 1
      | ZoomSlider v \<Rightarrow> 1 / 2 \<le> v \<and> v \<le> 5
      | _ \<Rightarrow> True)"

text \<open>The invariants of the viewer state.\<close>

definition index_in_range :: "string list \<Rightarrow> viewer_state \<Rightarrow> bool" where
  "index_in_range frames s =
     (case currentFrameIndex s of
        Finite i \<Rightarrow> 0 \<le> i \<and> i < int (length frames)
      | NaN \<Rightarrow> False)"

definition zoom_in_range :: "viewer_state \<Rightarrow> bool" where
  "zoom_in_range s = (1 / 2 \<le> zoomLevel s \<and> zoomLevel s \<le> 5)"

text \<open>
  The viewer inside the page \<open>Index\<close>. The page starts with no frames
  (\<open>useState<string[]>([])\<close>), \<open>handleFramesExtracted\<close> replaces the sequence by the
  one the extractor hands over, and the viewer's own state lives on under the new
  \<open>frames\<close> prop. The Tabs component is not among the sources at hand, so whether it
  unmounts the viewer while the other tab is shown is not known: a remount, which starts
  the viewer's state afresh, is an input that may or may not happen.
\<close>

datatype page_input = ToViewer input | FramesExtracted "string list" | Remounted

fun page_step :: "string list \<times> viewer_state \<Rightarrow> page_input \<Rightarrow> string list \<times> viewer_state" where
  "page_step (frames, s) (ToViewer ev) = (frames, dispatch frames s ev)"
| "page_step (frames, s) (FramesExtracted fs) = (fs, s)"
| "page_step (frames, s) Remounted = (frames, initial_state)"

definition run :: "page_input list \<Rightarrow> string list \<times> viewer_state" where
  "run evs = foldl page_step ([], initial_state) evs"

text \<open>
  The inputs considered for the invariants: slider values as the sliders deliver them,
  frame sequences as the extractor hands them over (\<open>FRAME_SIZE\<close> frames), and no arrow
  key while the sequence is empty.
\<close>

definition allowed :: "string list \<times> viewer_state \<Rightarrow> page_input \<Rightarrow> bool" where
  "allowed st ev =
     (case ev of
        ToViewer e \<Rightarrow>
          deliverable (fst st) e
          \<and> \<not> (fst st = [] \<and> (e = KeyDown ''ArrowLeft'' \<or> e = KeyDown ''ArrowRight''))
      | FramesExtracted fs \<Rightarrow> length fs = FRAME_SIZE
      | Remounted \<Rightarrow> True)"

fun admissible :: "string list \<times> viewer_state \<Rightarrow> page_input list \<Rightarrow> bool" where
  "admissible st [] = True"
| "admissible st (ev # evs) = (allowed st ev \<and> admissible (page_step st ev) evs)"

text \<open>What holds of the page between inputs, as long as the inputs are the allowed ones.\<close>

definition settled :: "string list \<times> viewer_state \<Rightarrow> bool" where
  "settled st \<longleftrightarrow>
     zoom_in_range (snd st)
     \<and> (fst st = [] \<longrightarrow> currentFrameIndex (snd st) = Finite 0)
     \<and> (fst st \<noteq> [] \<longrightarrow> length (fst st) = FRAME_SIZE \<and> index_in_range (fst st) (snd st))"

text \<open>
  What the component renders: the placeholder card, or the image whose \<open>src\<close> is
  \<open>frames[currentFrameIndex]\<close> (\<open>None\<close> for \<open>undefined\<close>, when the index is not an
  index of the array).
\<close>

datatype view = Placeholder | Image "string option"

definition element_at :: "string list \<Rightarrow> number \<Rightarrow> string option" where
  "element_at frames n =
     (case n of
        Finite i \<Rightarrow> if 0 \<le> i \<and> i < int (length frames) then Some (frames ! nat i) else None
      | NaN \<Rightarrow> None)"

definition render :: "string list \<Rightarrow> viewer_state \<Rightarrow> view" where
  "render frames s =
     (if length frames = 0 then Placeholder
      else Image (element_at frames (currentFrameIndex s)))"

section \<open>Sample inputs\<close>

text \<open>
  A ten-second full-HD video, a platform on which everything works for a given video, and
  an extractor state in which a video file has been selected.
\<close>

definition synthetic_video :: video where
  "synthetic_video = \<lparr>duration = 10, videoWidth = 1920, videoHeight = 1080\<rparr>"

definition steady_platform :: "video \<Rightarrow> platform" where
  "steady_platform v =
     \<lparr>videoRef = True, canvasRef = True, context2d = True, load = LoadedMetadata v,
      seeked = (\<lambda>i t. True), capture = (\<lambda>i t. Some ''data:image/jpeg;base64,'')\<rparr>"

definition selected :: extractor_state where
  "selected = \<lparr>isExtracting = False, progress = 0,
     videoFile = Some \<lparr>file_name = ''clip.mp4'', file_type = ''video/mp4''\<rparr>\<rparr>"

text \<open>A sequence of five frames for the viewer.\<close>

definition five_frames :: "string list" where
  "five_frames = [''f0'', ''f1'', ''f2'', ''f3'', ''f4'']"

section \<open>The sampling loop, step by step\<close>

lemma sample_loop_finished:
  "\<not> i < n \<Longrightarrow> sample_loop pf iv cv n i frames = ([], Returned frames)"
  by (subst sample_loop.simps) simp

lemma sample_loop_stuck:
  "i < n \<Longrightarrow> \<not> seeked pf i (real i * iv) \<Longrightarrow>
   sample_loop pf iv cv n i frames = ([SetCurrentTime (real i * iv)], Pending)"
  by (subst sample_loop.simps) (simp add: Let_def)

lemma sample_loop_raised:
  "i < n \<Longrightarrow> seeked pf i (real i * iv) \<Longrightarrow> capture pf i (real i * iv) = None \<Longrightarrow>
   sample_loop pf iv cv n i frames =
     ([SetCurrentTime (real i * iv), DrawImage (fst cv) (snd cv)], Threw)"
  by (subst sample_loop.simps) (simp add: Let_def)

lemma sample_loop_stepped:
  "i < n \<Longrightarrow> seeked pf i (real i * iv) \<Longrightarrow> capture pf i (real i * iv) = Some d \<Longrightarrow>
   sample_loop pf iv cv n i frames =
     (SetCurrentTime (real i * iv) # DrawImage (fst cv) (snd cv)
        # SetProgress (real (i + 1) / real n * 100)
        # fst (sample_loop pf iv cv n (Suc i) (frames @ [d])),
      snd (sample_loop pf iv cv n (Suc i) (frames @ [d])))"
  by (subst sample_loop.simps) (simp add: Let_def)

text \<open>Induction along the iterations of the loop, one case for each way an iteration goes.\<close>

lemma sample_loop_induct [case_names finished stuck raised stepped]:
  assumes "\<And>i frames. \<not> i < n \<Longrightarrow> P i frames"
    and "\<And>i frames. i < n \<Longrightarrow> \<not> seeked pf i (real i * iv) \<Longrightarrow> P i frames"
    and "\<And>i frames. i < n \<Longrightarrow> seeked pf i (real i * iv) \<Longrightarrow>
           capture pf i (real i * iv) = None \<Longrightarrow> P i frames"
    and "\<And>i frames d. i < n \<Longrightarrow> seeked pf i (real i * iv) \<Longrightarrow>
           capture pf i (real i * iv) = Some d \<Longrightarrow> P (Suc i) (frames @ [d]) \<Longrightarrow> P i frames"
  shows "P i frames"
proof (induction "n - i" arbitrary: i frames)
  case 0
  then show ?case using assms(1) by simp
next
  case (Suc k)
  then have lt: "i < n" and k: "k = n - Suc i" by simp_all
  show ?case
  proof (cases "seeked pf i (real i * iv)")
    case False
    with lt show ?thesis by (rule assms(2))
  next
    case True
    show ?thesis
    proof (cases "capture pf i (real i * iv)")
      case None
      with lt True show ?thesis by (rule assms(3))
    next
      case (Some d)
      from lt True Some Suc.hyps(1) [OF k] show ?thesis by (rule assms(4))
    qed
  qed
qed

lemma sample_loop_returned_length:
  "snd (sample_loop pf iv cv n i frames) = Returned fs \<Longrightarrow> i \<le> n \<Longrightarrow>
   length fs = length frames + (n - i)"
  by (induction i frames rule: sample_loop_induct [where n = n and pf = pf and iv = iv])
    (simp_all add: sample_loop_finished sample_loop_stuck sample_loop_raised sample_loop_stepped)

lemma sample_loop_seek_times:
  "t \<in> set (seek_times (fst (sample_loop pf iv cv n i frames))) \<Longrightarrow>
   \<exists>j. i \<le> j \<and> j < n \<and> t = real j * iv"
proof (induction i frames rule: sample_loop_induct [where n = n and pf = pf and iv = iv])
  case (stepped i frames d)
  from stepped.prems stepped.hyps
  have "t = real i * iv \<or> t \<in> set (seek_times (fst (sample_loop pf iv cv n (Suc i) (frames @ [d]))))"
    by (simp add: sample_loop_stepped)
  then show ?case
  proof
    assume "t = real i * iv"
    with stepped.hyps show ?thesis by blast
  next
    assume "t \<in> set (seek_times (fst (sample_loop pf iv cv n (Suc i) (frames @ [d]))))"
    then obtain j where "Suc i \<le> j" "j < n" "t = real j * iv"
      using stepped.IH by blast
    then show ?thesis by (intro exI [of _ j]) simp
  qed
qed (auto simp: sample_loop_finished sample_loop_stuck sample_loop_raised)

lemma sample_loop_drawn_sizes:
  "set (drawn_sizes (fst (sample_loop pf iv cv n i frames))) \<subseteq> {cv}"
  by (induction i frames rule: sample_loop_induct [where n = n and pf = pf and iv = iv])
    (simp_all add: sample_loop_finished sample_loop_stuck sample_loop_raised sample_loop_stepped)

lemma sample_loop_quiet:
  "handed_over (fst (sample_loop pf iv cv n i frames) @ es) = handed_over es"
  by (induction i frames rule: sample_loop_induct [where n = n and pf = pf and iv = iv])
    (simp_all add: sample_loop_finished sample_loop_stuck sample_loop_raised sample_loop_stepped)

lemma sample_loop_reports_append:
  "progress_reports b (fst (sample_loop pf iv cv n i frames) @ es) =
   progress_reports b (fst (sample_loop pf iv cv n i frames)) @ progress_reports b es"
  by (induction i frames rule: sample_loop_induct [where n = n and pf = pf and iv = iv])
    (auto simp: sample_loop_finished sample_loop_stuck sample_loop_raised sample_loop_stepped)

text \<open>The progress values of any run of the loop: those of the iterations it completed.\<close>

lemma sample_loop_reports:
  "\<exists>k \<le> n - i. progress_reports True (fst (sample_loop pf iv cv n i frames)) =
      map (\<lambda>j. real (j + 1) / real n * 100) [i..<i + k]"
proof (induction i frames rule: sample_loop_induct [where n = n and pf = pf and iv = iv])
  case (stepped i frames d)
  then obtain k where k: "k \<le> n - Suc i"
    "progress_reports True (fst (sample_loop pf iv cv n (Suc i) (frames @ [d]))) =
       map (\<lambda>j. real (j + 1) / real n * 100) [Suc i..<Suc i + k]"
    by blast
  have "[i..<i + Suc k] = i # [Suc i..<Suc i + k]"
    by (simp add: upt_conv_Cons)
  with k stepped.hyps
  have "progress_reports True (fst (sample_loop pf iv cv n i frames)) =
      map (\<lambda>j. real (j + 1) / real n * 100) [i..<i + Suc k]"
    by (simp add: sample_loop_stepped)
  moreover from k stepped.hyps have "Suc k \<le> n - i" by simp
  ultimately show ?case by blast
next
  case (finished i frames)
  then show ?case by (intro exI [of _ 0]) (simp add: sample_loop_finished)
next
  case (stuck i frames)
  then show ?case by (intro exI [of _ 0]) (simp add: sample_loop_stuck)
next
  case (raised i frames)
  then show ?case by (intro exI [of _ 0]) (simp add: sample_loop_raised)
qed

text \<open>A run on a platform that answers every seek and captures every frame.\<close>

lemma sample_loop_complete:
  assumes "\<forall>j. i \<le> j \<and> j < n \<longrightarrow>
             seeked pf j (real j * iv) \<and> capture pf j (real j * iv) \<noteq> None"
  shows "(\<exists>fs. snd (sample_loop pf iv cv n i frames) = Returned fs)
       \<and> seek_times (fst (sample_loop pf iv cv n i frames)) = map (\<lambda>j. real j * iv) [i..<n]
       \<and> progress_reports True (fst (sample_loop pf iv cv n i frames)) =
           map (\<lambda>j. real (j + 1) / real n * 100) [i..<n]"
  using assms
proof (induction i frames rule: sample_loop_induct [where n = n and pf = pf and iv = iv])
  case (stepped i frames d)
  have "[i..<n] = i # [Suc i..<n]"
    using stepped.hyps(1) by (simp add: upt_conv_Cons)
  moreover have "\<forall>j. Suc i \<le> j \<and> j < n \<longrightarrow>
      seeked pf j (real j * iv) \<and> capture pf j (real j * iv) \<noteq> None"
    using stepped.prems by simp
  ultimately show ?case
    using stepped.hyps stepped.IH by (simp add: sample_loop_stepped)
qed (auto simp: sample_loop_finished sample_loop_stuck sample_loop_raised)

lemma extractFrames_returned_length:
  "snd (extractFrames pf v n) = Returned fs \<Longrightarrow> fs = [] \<or> length fs = n"
  using sample_loop_returned_length [of pf "duration v / real n" "canvas_size v" n 0 "[]" fs]
  by (auto simp: extractFrames_def Let_def split: if_splits)

lemma extractFrames_quiet: "handed_over (fst (extractFrames pf v n) @ es) = handed_over es"
  by (simp add: extractFrames_def Let_def sample_loop_quiet)

lemma extractFrames_reports_append:
  "progress_reports b (fst (extractFrames pf v n) @ es) =
   progress_reports b (fst (extractFrames pf v n)) @ progress_reports b es"
  by (simp add: extractFrames_def Let_def sample_loop_reports_append)

lemma extractFrames_reports:
  "\<exists>k \<le> n. progress_reports True (fst (extractFrames pf v n)) =
      map (\<lambda>j. real (j + 1) / real n * 100) [0..<k]"
  using sample_loop_reports [of n 0 pf "duration v / real n" "canvas_size v" "[]"]
  by (auto simp: extractFrames_def Let_def intro: exI [of _ 0])

lemma extractFrames_complete:
  assumes "canvasRef pf" "context2d pf" "answers pf (duration v / real n) n"
  shows "(\<exists>fs. snd (extractFrames pf v n) = Returned fs \<and> length fs = n)
       \<and> seek_times (fst (extractFrames pf v n)) = map (\<lambda>j. real j * (duration v / real n)) [0..<n]
       \<and> progress_reports True (fst (extractFrames pf v n)) =
           map (\<lambda>j. real (j + 1) / real n * 100) [0..<n]"
proof -
  let ?run = "sample_loop pf (duration v / real n) (canvas_size v) n 0 []"
  from assms(3) have "\<forall>j. 0 \<le> j \<and> j < n \<longrightarrow>
      seeked pf j (real j * (duration v / real n)) \<and> capture pf j (real j * (duration v / real n)) \<noteq> None"
    by (simp add: answers_def)
  from sample_loop_complete [OF this, of "canvas_size v" "[]"]
  obtain fs where fs: "snd ?run = Returned fs"
    and rest: "seek_times (fst ?run) = map (\<lambda>j. real j * (duration v / real n)) [0..<n]"
      "progress_reports True (fst ?run) = map (\<lambda>j. real (j + 1) / real n * 100) [0..<n]"
    by blast
  from sample_loop_returned_length [OF fs] have "length fs = n" by simp
  with fs rest assms(1,2) show ?thesis
    by (simp add: extractFrames_def Let_def)
qed

lemma sorted_percentages: "sorted (0 # map (\<lambda>j. real (j + 1) / real n * 100) [0..<k])"
  by (auto simp: sorted_iff_nth_mono nth_Cons divide_right_mono split: nat.splits)

section \<open>The trace of an extraction\<close>

lemma seek_times_append: "seek_times (xs @ ys) = seek_times xs @ seek_times ys"
  by (induction xs rule: seek_times.induct) simp_all

lemma handler_reports:
  assumes "videoFile s \<noteq> None" "videoRef pf"
  shows "progress_reports False (fst (handleExtractFrames pf s)) =
     0 # (case load pf of
            LoadedMetadata v \<Rightarrow> progress_reports True (fst (extractFrames pf v FRAME_SIZE))
          | LoadError \<Rightarrow> []
          | LoadNever \<Rightarrow> [])"
  using assms
  by (simp add: handleExtractFrames_def try_block_def Let_def extractFrames_reports_append
      split: load_result.splits outcome.splits)

lemma extractFrames_silent: "handed_over (fst (extractFrames pf v n)) = []"
  using extractFrames_quiet [of pf v n "[]"] by simp

lemma handler_handed_over:
  "handed_over (fst (handleExtractFrames pf s)) =
     (if videoFile s \<noteq> None \<and> videoRef pf then
        (case load pf of
           LoadedMetadata v \<Rightarrow>
             (case snd (extractFrames pf v FRAME_SIZE) of
                Returned fs \<Rightarrow> if fs \<noteq> [] then [fs] else []
              | Threw \<Rightarrow> []
              | Pending \<Rightarrow> [])
         | LoadError \<Rightarrow> []
         | LoadNever \<Rightarrow> [])
      else [])"
  by (simp add: handleExtractFrames_def try_block_def Let_def extractFrames_quiet
      extractFrames_silent split: load_result.splits outcome.splits)

lemma handler_seek_times:
  assumes "videoFile s \<noteq> None" "videoRef pf" "load pf = LoadedMetadata v"
  shows "seek_times (fst (handleExtractFrames pf s)) =
     seek_times (fst (extractFrames pf v FRAME_SIZE))"
  using assms
  by (auto simp: handleExtractFrames_def try_block_def Let_def seek_times_append
      split: load_result.splits outcome.splits)

lemma last_percentage:
  "0 < n \<Longrightarrow> last (0 # map (\<lambda>j. real (j + 1) / real n * 100) [0..<n]) = 100"
  by (cases n) (simp_all add: last_map field_simps del: upt_Suc)

lemma handed_over_cases:
  "handed_over (fst (handleExtractFrames pf s)) = [] \<or>
   (\<exists>w fs. videoFile s \<noteq> None \<and> videoRef pf \<and> load pf = LoadedMetadata w
      \<and> snd (extractFrames pf w FRAME_SIZE) = Returned fs \<and> fs \<noteq> []
      \<and> handed_over (fst (handleExtractFrames pf s)) = [fs])"
proof (cases "load pf")
  case (LoadedMetadata w)
  show ?thesis
  proof (cases "snd (extractFrames pf w FRAME_SIZE)")
    case (Returned gs)
    have "handed_over (fst (handleExtractFrames pf s)) =
        (if videoFile s \<noteq> None \<and> videoRef pf \<and> gs \<noteq> [] then [gs] else [])"
      unfolding handler_handed_over LoadedMetadata load_result.case Returned outcome.case
      by auto
    with LoadedMetadata Returned show ?thesis by (cases "gs = []") auto
  next
    case Threw
    have "handed_over (fst (handleExtractFrames pf s)) = []"
      unfolding handler_handed_over LoadedMetadata load_result.case Threw outcome.case
      by (simp only: if_cancel)
    then show ?thesis by simp
  next
    case Pending
    have "handed_over (fst (handleExtractFrames pf s)) = []"
      unfolding handler_handed_over LoadedMetadata load_result.case Pending outcome.case
      by (simp only: if_cancel)
    then show ?thesis by simp
  qed
next
  case LoadError
  have "handed_over (fst (handleExtractFrames pf s)) = []"
    unfolding handler_handed_over LoadError load_result.case by (simp only: if_cancel)
  then show ?thesis by simp
next
  case LoadNever
  have "handed_over (fst (handleExtractFrames pf s)) = []"
    unfolding handler_handed_over LoadNever load_result.case by (simp only: if_cancel)
  then show ?thesis by simp
qed

lemma handed_over_success:
  assumes "videoFile s \<noteq> None" "videoRef pf" "load pf = LoadedMetadata v"
    and "snd (extractFrames pf v FRAME_SIZE) = Returned fs" "fs \<noteq> []"
  shows "handed_over (fst (handleExtractFrames pf s)) = [fs]"
  using assms
  by (simp add: handleExtractFrames_def try_block_def Let_def extractFrames_quiet)

text \<open>What a run that returns has done: every seek was answered and every frame captured, and
  the frames returned are the captures, in order, after those it started with.\<close>

lemma sample_loop_returned:
  "snd (sample_loop pf iv cv n i frames) = Returned fs \<Longrightarrow>
   (\<forall>j. i \<le> j \<and> j < n \<longrightarrow> seeked pf j (real j * iv) \<and> capture pf j (real j * iv) \<noteq> None)
   \<and> map Some fs = map Some frames @ map (\<lambda>j. capture pf j (real j * iv)) [i..<n]"
proof (induction i frames rule: sample_loop_induct [where n = n and pf = pf and iv = iv])
  case (finished i frames)
  then show ?case by (auto simp: sample_loop_finished)
next
  case (stuck i frames)
  then show ?case by (simp add: sample_loop_stuck)
next
  case (raised i frames)
  then show ?case by (simp add: sample_loop_raised)
next
  case (stepped i frames d)
  from stepped.prems stepped.hyps
  have "snd (sample_loop pf iv cv n (Suc i) (frames @ [d])) = Returned fs"
    by (simp add: sample_loop_stepped)
  from stepped.IH [OF this]
  have later: "\<forall>j. Suc i \<le> j \<and> j < n \<longrightarrow>
      seeked pf j (real j * iv) \<and> capture pf j (real j * iv) \<noteq> None"
    and fs: "map Some fs =
      map Some (frames @ [d]) @ map (\<lambda>j. capture pf j (real j * iv)) [Suc i..<n]"
    by simp_all
  have "\<forall>j. i \<le> j \<and> j < n \<longrightarrow> seeked pf j (real j * iv) \<and> capture pf j (real j * iv) \<noteq> None"
  proof (intro allI impI)
    fix j
    assume j: "i \<le> j \<and> j < n"
    show "seeked pf j (real j * iv) \<and> capture pf j (real j * iv) \<noteq> None"
    proof (cases "j = i")
      case True
      with stepped.hyps show ?thesis by simp
    next
      case False
      with j later show ?thesis by simp
    qed
  qed
  moreover have "[i..<n] = i # [Suc i..<n]"
    using stepped.hyps(1) by (simp add: upt_conv_Cons)
  ultimately show ?case using fs stepped.hyps by simp
qed

text \<open>The effects of a run that nothing stops: seek, draw, report, for each index in turn.\<close>

lemma sample_loop_trace:
  assumes "\<forall>j. i \<le> j \<and> j < n \<longrightarrow>
             seeked pf j (real j * iv) \<and> capture pf j (real j * iv) \<noteq> None"
  shows "fst (sample_loop pf iv cv n i frames) =
     concat (map (\<lambda>j. [SetCurrentTime (real j * iv), DrawImage (fst cv) (snd cv),
                        SetProgress (real (j + 1) / real n * 100)]) [i..<n])"
  using assms
proof (induction i frames rule: sample_loop_induct [where n = n and pf = pf and iv = iv])
  case (stepped i frames d)
  have "[i..<n] = i # [Suc i..<n]"
    using stepped.hyps(1) by (simp add: upt_conv_Cons)
  moreover have "\<forall>j. Suc i \<le> j \<and> j < n \<longrightarrow>
      seeked pf j (real j * iv) \<and> capture pf j (real j * iv) \<noteq> None"
    using stepped.prems by simp
  ultimately show ?case
    using stepped.hyps stepped.IH by (simp add: sample_loop_stepped)
qed (auto simp: sample_loop_finished sample_loop_stuck sample_loop_raised)

lemma extractFrames_returned:
  assumes "snd (extractFrames pf v n) = Returned fs" "fs \<noteq> []"
  shows "canvasRef pf \<and> context2d pf \<and> answers pf (duration v / real n) n
       \<and> map Some fs = map (\<lambda>j. capture pf j (real j * (duration v / real n))) [0..<n]"
proof -
  from assms have c: "canvasRef pf" "context2d pf"
    by (auto simp: extractFrames_def split: if_splits)
  with assms(1)
  have "snd (sample_loop pf (duration v / real n) (canvas_size v) n 0 []) = Returned fs"
    by (simp add: extractFrames_def Let_def)
  from sample_loop_returned [OF this] c show ?thesis
    by (simp add: answers_def)
qed

lemma extractFrames_trace:
  assumes "canvasRef pf" "context2d pf" "answers pf (duration v / real n) n"
  shows "fst (extractFrames pf v n) =
     concat (map (\<lambda>j. [SetCurrentTime (real j * (duration v / real n)),
                        DrawImage (fst (canvas_size v)) (snd (canvas_size v)),
                        SetProgress (real (j + 1) / real n * 100)]) [0..<n])"
proof -
  from assms(3) have "\<forall>j. 0 \<le> j \<and> j < n \<longrightarrow>
      seeked pf j (real j * (duration v / real n))
      \<and> capture pf j (real j * (duration v / real n)) \<noteq> None"
    by (simp add: answers_def)
  from sample_loop_trace [OF this, of "canvas_size v" "[]"] assms(1,2) show ?thesis
    by (simp add: extractFrames_def Let_def)
qed

section \<open>The canvas size\<close>

text \<open>The rounding of doubles and its relative error.\<close>

lemma round_half_even_near: "\<bar>of_int (round_half_even y) - y\<bar> \<le> 1 / 2"
proof -
  have "of_int \<lfloor>y\<rfloor> \<le> y" "y < of_int \<lfloor>y\<rfloor> + 1" by linarith+
  then show ?thesis
    by (auto simp: round_half_even_def Let_def abs_le_iff)
qed

lemma powr_of_int_2: "(2::real) powr of_int k = 2 powi k"
  by (simp add: powr_real_of_int')

lemma binade_bounds:
  assumes "x \<noteq> 0"
  shows "2 powi binade x \<le> \<bar>x\<bar>" and "\<bar>x\<bar> < 2 powi (binade x + 1)"
proof -
  from assms have pos: "0 < \<bar>x\<bar>" by simp
  have "of_int (binade x) \<le> log 2 \<bar>x\<bar>" by (simp add: binade_def)
  then have "2 powr of_int (binade x) \<le> \<bar>x\<bar>"
    using pos by (simp add: le_log_iff)
  then show "2 powi binade x \<le> \<bar>x\<bar>" by (simp add: powr_real_of_int')
  have "log 2 \<bar>x\<bar> < of_int (binade x + 1)" unfolding binade_def by linarith
  then have "\<bar>x\<bar> < 2 powr of_int (binade x + 1)"
    using pos by (simp add: log_less_iff)
  then show "\<bar>x\<bar> < 2 powi (binade x + 1)" by (simp only: powr_of_int_2)
qed

lemma binade_eqI:
  assumes "2 powi e \<le> \<bar>x\<bar>" "\<bar>x\<bar> < 2 powi (e + 1)"
  shows "binade x = e"
proof -
  have p: "0 < (2::real) powi e" by simp
  with assms have pos: "0 < \<bar>x\<bar>" by linarith
  from assms have "2 powr of_int e \<le> \<bar>x\<bar>" "\<bar>x\<bar> < 2 powr of_int (e + 1)"
    by (simp_all only: powr_of_int_2)
  with pos have "of_int e \<le> log 2 \<bar>x\<bar>" "log 2 \<bar>x\<bar> < of_int (e + 1)"
    by (simp_all add: le_log_iff log_less_iff)
  then show ?thesis unfolding binade_def by linarith
qed

lemma round_double_error:
  "\<bar>round_double x - x\<bar> \<le> \<bar>x\<bar> / 2 ^ 53"
proof (cases "x = 0")
  case True
  then show ?thesis by (simp add: round_double_def)
next
  case False
  let ?e = "binade x"
  let ?m = "x * 2 powi (52 - ?e)"
  have s: "(2::real) powi (52 - ?e) * 2 powi (?e - 52) = 1"
    by (simp flip: power_int_add)
  have "round_double x - x = (of_int (round_half_even ?m) - ?m) * 2 powi (?e - 52)"
    using False s by (simp add: round_double_def algebra_simps)
  then have "\<bar>round_double x - x\<bar> = \<bar>of_int (round_half_even ?m) - ?m\<bar> * 2 powi (?e - 52)"
    by (simp add: abs_mult)
  also have "\<dots> \<le> 1 / 2 * 2 powi (?e - 52)"
    by (intro mult_right_mono round_half_even_near) simp
  also have "\<dots> = 2 powi ?e / 2 ^ 53"
    by (simp add: power_int_diff)
  also have "\<dots> \<le> \<bar>x\<bar> / 2 ^ 53"
    using binade_bounds(1) [OF False] by (simp add: divide_right_mono)
  finally show ?thesis .
qed

lemma round_double_eval:
  assumes "2 powi e \<le> \<bar>x\<bar>" "\<bar>x\<bar> < 2 powi (e + 1)"
  shows "round_double x = of_int (round_half_even (x * 2 powi (52 - e))) * 2 powi (e - 52)"
proof -
  have "0 < (2::real) powi e" by simp
  with assms(1) have "0 < \<bar>x\<bar>" by linarith
  then have "x \<noteq> 0" by simp
  with binade_eqI [OF assms] show ?thesis by (simp add: round_double_def)
qed

lemma product_error:
  fixes u r p a y :: real
  assumes u: "0 \<le> u" "u \<le> 1 / 4" and r: "0 \<le> r" and p: "0 \<le> p"
    and fa: "\<bar>a - r\<bar> \<le> u * r" and fy: "\<bar>y - p * a\<bar> \<le> u * \<bar>p * a\<bar>"
  shows "\<bar>y - p * r\<bar> \<le> 4 * u * (p * r)"
proof -
  define z where "z = u * (p * r)"
  have z0: "0 \<le> z" using u p r by (simp add: z_def)
  from u r have "u * r \<le> 1 * r" by (intro mult_right_mono) simp_all
  with fa have a: "0 \<le> a" "a \<le> 2 * r" by linarith+
  have pa0: "0 \<le> p * a" using p a(1) by simp
  have "p * a \<le> p * (2 * r)" by (rule mult_left_mono [OF a(2) p])
  then have "u * (p * a) \<le> u * (p * (2 * r))" by (rule mult_left_mono [OF _ u(1)])
  also have "\<dots> = 2 * z" by (simp add: z_def)
  finally have "u * (p * a) \<le> 2 * z" .
  moreover from fy pa0 have "\<bar>y - p * a\<bar> \<le> u * (p * a)" by (simp only: abs_of_nonneg)
  ultimately have 1: "\<bar>y - p * a\<bar> \<le> 2 * z" by linarith
  have "\<bar>p * a - p * r\<bar> = p * \<bar>a - r\<bar>"
    using p by (simp add: abs_mult flip: right_diff_distrib)
  also have "\<dots> \<le> p * (u * r)" by (rule mult_left_mono [OF fa p])
  also have "\<dots> = z" by (simp add: z_def)
  finally have 2: "\<bar>p * a - p * r\<bar> \<le> z" .
  have "4 * u * (p * r) = 4 * z" by (simp add: z_def)
  with 1 2 z0 show ?thesis by linarith
qed

lemma quotient_error:
  fixes u r p a y :: real
  assumes u: "0 \<le> u" "u \<le> 1 / 4" and r: "0 < r" and p: "0 \<le> p"
    and fa: "\<bar>a - r\<bar> \<le> u * r" and fy: "\<bar>y - p / a\<bar> \<le> u * \<bar>p / a\<bar>"
  shows "\<bar>y - p / r\<bar> \<le> 4 * u * (p / r)"
proof -
  define z where "z = u * (p / r)"
  have q: "0 \<le> p / r" using p r by simp
  have z0: "0 \<le> z" unfolding z_def by (rule mult_nonneg_nonneg [OF u(1) q])
  from u r have "u * r \<le> 1 / 4 * r" by (intro mult_right_mono) simp_all
  with fa have a: "3 / 4 * r \<le> a" by linarith
  with r have apos: "0 < a" by linarith
  have "p / a \<le> p / (3 / 4 * r)"
    using a r p by (intro divide_left_mono) simp_all
  then have pa: "p / a \<le> 4 / 3 * (p / r)" by simp
  have pa0: "0 \<le> p / a" using p apos by simp
  have "u * (p / a) \<le> u * (4 / 3 * (p / r))" by (rule mult_left_mono [OF pa u(1)])
  also have "\<dots> = 4 / 3 * z" by (simp add: z_def)
  finally have "u * (p / a) \<le> 4 / 3 * z" .
  moreover from fy pa0 have "\<bar>y - p / a\<bar> \<le> u * (p / a)" by (simp only: abs_of_nonneg)
  ultimately have 1: "\<bar>y - p / a\<bar> \<le> 4 / 3 * z" by linarith
  have "p / a - p / r = (p / a) * ((r - a) / r)"
    using r apos by (simp add: field_simps)
  then have "\<bar>p / a - p / r\<bar> = \<bar>p / a\<bar> * \<bar>(r - a) / r\<bar>"
    by (simp only: abs_mult)
  also have "\<bar>p / a\<bar> = p / a" using pa0 by (rule abs_of_nonneg)
  also have "\<bar>(r - a) / r\<bar> = \<bar>a - r\<bar> / r"
    using r by (simp add: abs_minus_commute)
  finally have "\<bar>p / a - p / r\<bar> = (p / a) * (\<bar>a - r\<bar> / r)" .
  also have "\<dots> \<le> (p / a) * u"
  proof (rule mult_left_mono [OF _ pa0])
    from fa r show "\<bar>a - r\<bar> / r \<le> u" by (simp add: field_simps)
  qed
  also have "\<dots> \<le> 4 / 3 * (p / r) * u" by (rule mult_right_mono [OF pa u(1)])
  also have "\<dots> = 4 / 3 * z" by (simp add: z_def)
  finally have 2: "\<bar>p / a - p / r\<bar> \<le> 4 / 3 * z" .
  have "4 * u * (p / r) = 4 * z" by (simp add: z_def)
  with 1 2 z0 show ?thesis by linarith
qed

text \<open>Truncating a value that is closer to \<open>N / d\<close> than \<open>1 / d\<close>.\<close>

lemma truncated_near_fraction:
  fixes N d :: nat and y :: real
  assumes d: "0 < d" and y: "0 \<le> y" and near: "\<bar>y - real N / real d\<bar> < 1 / real d"
  shows "nat \<lfloor>y\<rfloor> * d \<le> N" and "N \<le> (nat \<lfloor>y\<rfloor> + 1) * d"
proof -
  let ?c = "nat \<lfloor>y\<rfloor>"
  from y have c: "real ?c \<le> y" "y < real ?c + 1" by linarith+
  from near d have n: "\<bar>y * real d - real N\<bar> < 1"
    by (simp add: field_simps abs_less_iff)
  show "?c * d \<le> N"
  proof (rule ccontr)
    assume "\<not> ?c * d \<le> N"
    then have "N + 1 \<le> ?c * d" by simp
    then have "real N + 1 \<le> real ?c * real d"
      by (metis of_nat_1 of_nat_add of_nat_le_iff of_nat_mult)
    also have "\<dots> \<le> y * real d" using c(1) by (intro mult_right_mono) simp_all
    finally show False using n by linarith
  qed
  show "N \<le> (?c + 1) * d"
  proof (rule ccontr)
    assume "\<not> N \<le> (?c + 1) * d"
    then have "(?c + 1) * d + 1 \<le> N" by simp
    then have "(real ?c + 1) * real d + 1 \<le> real N"
      by (metis of_nat_1 of_nat_add of_nat_le_iff of_nat_mult)
    moreover have "y * real d \<le> (real ?c + 1) * real d"
      using c(2) by (intro mult_right_mono) simp_all
    ultimately show False using n by linarith
  qed
qed

lemma to_unsigned_long_floor:
  assumes "0 \<le> x" "x < 2 ^ 32"
  shows "to_unsigned_long x = nat \<lfloor>x\<rfloor>"
proof -
  from assms have "0 \<le> \<lfloor>x\<rfloor>" "\<lfloor>x\<rfloor> < 2 ^ 32"
    by (simp_all add: floor_less_iff)
  then have "\<lfloor>x\<rfloor> mod 2 ^ 32 = \<lfloor>x\<rfloor>" by simp
  with assms show ?thesis by (simp add: to_unsigned_long_def)
qed

lemma to_unsigned_long_capped:
  "to_unsigned_long (real (min maxDimension k)) = min maxDimension k"
proof -
  have "min maxDimension k \<le> 800" by (simp add: maxDimension_def)
  then have "real (min maxDimension k) \<le> real 800" by (simp only: of_nat_le_iff)
  then have "real (min maxDimension k) < 2 ^ 32" by simp
  then show ?thesis by (subst to_unsigned_long_floor) simp_all
qed

text \<open>
  The stored edge that depends on the other one: \<open>y\<close> is the double computed for it,
  \<open>c * a / b\<close> the exactly proportional value, with \<open>c\<close> the capped edge.
\<close>

lemma stored_edge:
  fixes a b c :: nat and y :: real
  assumes b: "0 < b" and ab: "a \<le> b" and c: "c \<le> 800" and a32: "a < 2 ^ 32"
    and err: "\<bar>y - real c * real a / real b\<bar> \<le> 4 * (1 / 2 ^ 53) * (real c * real a / real b)"
  shows "to_unsigned_long y * b \<le> c * a" and "c * a \<le> (to_unsigned_long y + 1) * b"
    and "to_unsigned_long y \<le> c"
proof -
  let ?x = "real c * real a / real b"
  have x0: "0 \<le> ?x" by simp
  have "c * a \<le> 800 * a" using c by simp
  also have "\<dots> < 800 * 2 ^ 32" using a32 by simp
  finally have "real (c * a) < real (800 * 2 ^ 32)" by (simp only: of_nat_less_iff)
  then have ca: "real c * real a < 800 * 2 ^ 32" by simp
  have "4 * (1 / 2 ^ 53) * ?x = (real c * real a) * (4 / 2 ^ 53) / real b" by simp
  also have "\<dots> < 1 / real b"
  proof (rule divide_strict_right_mono)
    from ca show "real c * real a * (4 / 2 ^ 53) < 1" by simp
    from b show "0 < real b" by simp
  qed
  finally have small: "4 * (1 / 2 ^ 53) * ?x < 1 / real b" .
  with err have near: "\<bar>y - real (c * a) / real b\<bar> < 1 / real b" by simp
  have "1 / real b \<le> 1" using b by simp
  with small have "4 * (1 / 2 ^ 53) * ?x < 1" by linarith
  moreover have "4 * (1 / 2 ^ 53) * ?x \<le> 1 * ?x"
    by (rule mult_right_mono [OF _ x0]) simp
  ultimately have y0: "0 \<le> y" and yx: "y < ?x + 1" using err by linarith+
  have "?x \<le> real c"
  proof -
    have "real c * real a \<le> real c * real b" using ab by (simp add: mult_left_mono)
    then have "?x \<le> real c * real b / real b" by (rule divide_right_mono) simp
    with b show ?thesis by simp
  qed
  moreover have "real c \<le> real 800" using c by (simp only: of_nat_le_iff)
  ultimately have "y < 2 ^ 32" using yx by simp
  with y0 have t: "to_unsigned_long y = nat \<lfloor>y\<rfloor>" by (rule to_unsigned_long_floor)
  from truncated_near_fraction [OF b y0 near]
  show le: "to_unsigned_long y * b \<le> c * a" and "c * a \<le> (to_unsigned_long y + 1) * b"
    unfolding t by simp_all
  have "c * a \<le> c * b" using ab by simp
  with le have "to_unsigned_long y * b \<le> c * b" by (rule le_trans)
  with b show "to_unsigned_long y \<le> c" by simp
qed

lemma canvas_size_landscape:
  assumes "videoHeight v < videoWidth v" "0 < videoHeight v" "videoWidth v < 2 ^ 32"
  shows "fst (canvas_size v) = min maxDimension (videoWidth v)"
    and "snd (canvas_size v) * videoWidth v \<le> fst (canvas_size v) * videoHeight v"
    and "fst (canvas_size v) * videoHeight v \<le> (snd (canvas_size v) + 1) * videoWidth v"
    and "snd (canvas_size v) \<le> fst (canvas_size v)"
proof -
  let ?w = "videoWidth v" and ?h = "videoHeight v"
  let ?c = "min maxDimension ?w"
  let ?r = "real ?w / real ?h"
  let ?a = "round_double ?r"
  let ?y = "round_double (real ?c / ?a)"
  have cs: "canvas_size v = (?c, to_unsigned_long ?y)"
    using assms(1) by (simp add: canvas_size_def Let_def to_unsigned_long_capped)
  have r: "0 < ?r" using assms by simp
  have "\<bar>?a - ?r\<bar> \<le> \<bar>?r\<bar> / 2 ^ 53" by (rule round_double_error)
  then have fa: "\<bar>?a - ?r\<bar> \<le> 1 / 2 ^ 53 * ?r" using r by simp
  have "\<bar>?y - real ?c / ?a\<bar> \<le> \<bar>real ?c / ?a\<bar> / 2 ^ 53" by (rule round_double_error)
  then have fy: "\<bar>?y - real ?c / ?a\<bar> \<le> 1 / 2 ^ 53 * \<bar>real ?c / ?a\<bar>" by simp
  have "\<bar>?y - real ?c / ?r\<bar> \<le> 4 * (1 / 2 ^ 53) * (real ?c / ?r)"
    by (rule quotient_error [OF _ _ r _ fa fy]) simp_all
  moreover have "real ?c / ?r = real ?c * real ?h / real ?w" by simp
  ultimately have err: "\<bar>?y - real ?c * real ?h / real ?w\<bar>
      \<le> 4 * (1 / 2 ^ 53) * (real ?c * real ?h / real ?w)"
    by simp
  have b: "0 < ?w" "?h \<le> ?w" "?c \<le> 800" "?h < 2 ^ 32"
    using assms by (simp_all add: maxDimension_def)
  note e = stored_edge [OF b err]
  from e show "fst (canvas_size v) = min maxDimension (videoWidth v)"
    and "snd (canvas_size v) * videoWidth v \<le> fst (canvas_size v) * videoHeight v"
    and "fst (canvas_size v) * videoHeight v \<le> (snd (canvas_size v) + 1) * videoWidth v"
    and "snd (canvas_size v) \<le> fst (canvas_size v)"
    by (simp_all add: cs)
qed

lemma canvas_size_portrait:
  assumes "videoWidth v \<le> videoHeight v" "0 < videoWidth v" "videoHeight v < 2 ^ 32"
  shows "snd (canvas_size v) = min maxDimension (videoHeight v)"
    and "fst (canvas_size v) * videoHeight v \<le> snd (canvas_size v) * videoWidth v"
    and "snd (canvas_size v) * videoWidth v \<le> (fst (canvas_size v) + 1) * videoHeight v"
    and "fst (canvas_size v) \<le> snd (canvas_size v)"
proof -
  let ?w = "videoWidth v" and ?h = "videoHeight v"
  let ?c = "min maxDimension ?h"
  let ?r = "real ?w / real ?h"
  let ?a = "round_double ?r"
  let ?y = "round_double (real ?c * ?a)"
  have cs: "canvas_size v = (to_unsigned_long ?y, ?c)"
    using assms(1) by (simp add: canvas_size_def Let_def to_unsigned_long_capped)
  have r: "0 \<le> ?r" by simp
  have "\<bar>?a - ?r\<bar> \<le> \<bar>?r\<bar> / 2 ^ 53" by (rule round_double_error)
  then have fa: "\<bar>?a - ?r\<bar> \<le> 1 / 2 ^ 53 * ?r" using r by simp
  have "\<bar>?y - real ?c * ?a\<bar> \<le> \<bar>real ?c * ?a\<bar> / 2 ^ 53" by (rule round_double_error)
  then have fy: "\<bar>?y - real ?c * ?a\<bar> \<le> 1 / 2 ^ 53 * \<bar>real ?c * ?a\<bar>" by simp
  have "\<bar>?y - real ?c * ?r\<bar> \<le> 4 * (1 / 2 ^ 53) * (real ?c * ?r)"
    by (rule product_error [OF _ _ r _ fa fy]) simp_all
  moreover have "real ?c * ?r = real ?c * real ?w / real ?h" by simp
  ultimately have err: "\<bar>?y - real ?c * real ?w / real ?h\<bar>
      \<le> 4 * (1 / 2 ^ 53) * (real ?c * real ?w / real ?h)"
    by simp
  have b: "0 < ?h" "?w \<le> ?h" "?c \<le> 800" "?w < 2 ^ 32"
    using assms by (simp_all add: maxDimension_def)
  note e = stored_edge [OF b err]
  from e show "snd (canvas_size v) = min maxDimension (videoHeight v)"
    and "fst (canvas_size v) * videoHeight v \<le> snd (canvas_size v) * videoWidth v"
    and "snd (canvas_size v) * videoWidth v \<le> (fst (canvas_size v) + 1) * videoHeight v"
    and "fst (canvas_size v) \<le> snd (canvas_size v)"
    by (simp_all add: cs)
qed

lemma extractFrames_drawn_sizes:
  "set (drawn_sizes (fst (extractFrames pf v n))) \<subseteq> {canvas_size v}"
  using sample_loop_drawn_sizes [of pf "duration v / real n" "canvas_size v" n 0 "[]"]
  by (simp add: extractFrames_def Let_def)

section \<open>The viewer's handlers and invariants\<close>

lemma js_rem_nonneg:
  "0 \<le> a \<Longrightarrow> 0 < b \<Longrightarrow> js_rem (Finite a) (Finite b) = Finite (a mod b)"
  by (cases "a = 0") simp_all

lemma handleWheel_index:
  "currentFrameIndex s = Finite i \<Longrightarrow>
   currentFrameIndex (handleWheel frames deltaY s) =
     Finite (max 0 (min (int (length frames) - 1) (i + (if deltaY > 0 then 1 else - 1))))"
  by (simp add: handleWheel_def frames_length_def Let_def)

lemma arrow_right_index:
  assumes "currentFrameIndex s = Finite i" "0 \<le> i" "frames \<noteq> []"
  shows "currentFrameIndex (handleKeyPress frames ''ArrowRight'' s) =
     Finite ((i + 1) mod int (length frames))"
  using assms by (simp add: handleKeyPress_def frames_length_def js_rem_nonneg)

lemma arrow_left_index:
  assumes "currentFrameIndex s = Finite i" "0 \<le> i" "frames \<noteq> []"
  shows "currentFrameIndex (handleKeyPress frames ''ArrowLeft'' s) =
     Finite ((i - 1) mod int (length frames))"
proof -
  from assms have "0 \<le> i + - 1 + int (length frames)" "0 < int (length frames)"
    by (cases frames; simp)+
  then have "js_rem (Finite (i + - 1 + int (length frames))) (Finite (int (length frames))) =
      Finite ((i + - 1 + int (length frames)) mod int (length frames))"
    by (rule js_rem_nonneg)
  with assms show ?thesis
    by (simp add: handleKeyPress_def frames_length_def)
qed

lemma tick_index:
  assumes "currentFrameIndex s = Finite i" "0 \<le> i" "frames \<noteq> []"
  shows "currentFrameIndex (autoPlayTick frames s) = Finite ((i + 1) mod int (length frames))"
  using assms by (simp add: autoPlayTick_def frames_length_def js_rem_nonneg)

lemma index_in_range_iff:
  "index_in_range frames s \<longleftrightarrow>
   (\<exists>i. currentFrameIndex s = Finite i \<and> 0 \<le> i \<and> i < int (length frames))"
  by (cases "currentFrameIndex s") (simp_all add: index_in_range_def)

lemma index_in_rangeI:
  "currentFrameIndex s = Finite i \<Longrightarrow> 0 \<le> i \<Longrightarrow> i < int (length frames) \<Longrightarrow>
   index_in_range frames s"
  by (auto simp: index_in_range_iff)

lemma handleWheel_keeps_index:
  assumes "index_in_range frames s"
  shows "index_in_range frames (handleWheel frames deltaY s)"
proof -
  from assms obtain i where i: "currentFrameIndex s = Finite i" "0 \<le> i" "i < int (length frames)"
    by (auto simp: index_in_range_iff)
  show ?thesis
    by (rule index_in_rangeI [OF handleWheel_index [OF i(1)]]) (use i in auto)
qed

lemma handleKeyPress_keeps_index:
  assumes "index_in_range frames s"
  shows "index_in_range frames (handleKeyPress frames key s)"
proof -
  from assms obtain i where i: "currentFrameIndex s = Finite i" "0 \<le> i" "i < int (length frames)"
    by (auto simp: index_in_range_iff)
  then have ne: "frames \<noteq> []" and pos: "0 < int (length frames)" by auto
  consider "key = ''ArrowLeft''" | "key = ''ArrowRight''" | "key = '' ''" | "key = ''r''"
    | "key \<noteq> ''ArrowLeft''" "key \<noteq> ''ArrowRight''" "key \<noteq> '' ''" "key \<noteq> ''r''"
    by blast
  then show ?thesis
  proof cases
    case 1
    show ?thesis
      unfolding 1
      by (rule index_in_rangeI [OF arrow_left_index [OF i(1,2) ne]]) (use pos in simp_all)
  next
    case 2
    show ?thesis
      unfolding 2
      by (rule index_in_rangeI [OF arrow_right_index [OF i(1,2) ne]]) (use pos in simp_all)
  next
    case 3
    with assms show ?thesis by (simp add: handleKeyPress_def index_in_range_def)
  next
    case 4
    with ne show ?thesis by (simp add: handleKeyPress_def reset_def index_in_range_def)
  next
    case 5
    with assms show ?thesis by (simp add: handleKeyPress_def)
  qed
qed

lemma handleKeyPress_zoom:
  "zoom_in_range s \<Longrightarrow> zoom_in_range (handleKeyPress frames key s)"
  by (simp add: handleKeyPress_def reset_def zoom_in_range_def)

lemma autoPlayTick_keeps_index:
  assumes "index_in_range frames s"
  shows "index_in_range frames (autoPlayTick frames s)"
proof -
  from assms obtain i where i: "currentFrameIndex s = Finite i" "0 \<le> i" "i < int (length frames)"
    by (auto simp: index_in_range_iff)
  then have ne: "frames \<noteq> []" and pos: "0 < int (length frames)" by auto
  show ?thesis
    by (rule index_in_rangeI [OF tick_index [OF i(1,2) ne]]) (use pos in simp_all)
qed

lemma dispatch_keeps_index:
  assumes "index_in_range frames s" "deliverable frames ev"
  shows "index_in_range frames (dispatch frames s ev)"
proof (cases ev)
  case (Wheel d)
  with assms handleWheel_keeps_index show ?thesis by (auto simp: dispatch_def)
next
  case (KeyDown k)
  with assms handleKeyPress_keeps_index show ?thesis by (auto simp: dispatch_def)
next
  case Tick
  with assms autoPlayTick_keeps_index show ?thesis by (auto simp: dispatch_def)
next
  case (FrameSlider x)
  with assms show ?thesis by (simp add: dispatch_def deliverable_def index_in_range_def)
next
  case ResetButton
  with assms show ?thesis by (auto simp: dispatch_def reset_def index_in_range_iff)
qed (use assms in \<open>simp_all add: dispatch_def index_in_range_def handleMouseDown_def
      handleMouseMove_def handleMouseUp_def toggleAutoPlay_def Let_def\<close>)

lemma dispatch_keeps_zoom:
  assumes "zoom_in_range s" "deliverable frames ev"
  shows "zoom_in_range (dispatch frames s ev)"
  using assms
  by (cases ev)
    (simp_all add: dispatch_def zoom_in_range_def deliverable_def handleWheel_def Let_def
      handleKeyPress_def reset_def autoPlayTick_def handleMouseDown_def handleMouseMove_def
      handleMouseUp_def toggleAutoPlay_def)

lemma dispatch_on_empty:
  assumes "ev \<noteq> KeyDown ''ArrowLeft''" "ev \<noteq> KeyDown ''ArrowRight''"
    and "currentFrameIndex s = Finite 0"
  shows "currentFrameIndex (dispatch [] s ev) = Finite 0"
proof (cases ev)
  case (KeyDown k)
  with assms(1,2) have "k \<noteq> ''ArrowLeft''" "k \<noteq> ''ArrowRight''" by simp_all
  with KeyDown assms(3) show ?thesis
    by (simp add: dispatch_def handleKeyPress_def reset_def)
qed (use assms(3) in \<open>simp_all add: dispatch_def\<close>)

lemma initial_state_settled: "settled ([], initial_state)"
  by (simp add: settled_def zoom_in_range_def initial_state_def)

lemma page_step_settled:
  assumes "settled st" "allowed st ev"
  shows "settled (page_step st ev)"
proof -
  obtain frames s where st: "st = (frames, s)" by (cases st)
  show ?thesis
  proof (cases ev)
    case (ToViewer e)
    with assms(2) st have del: "deliverable frames e"
      and arrows: "frames = [] \<longrightarrow> e \<noteq> KeyDown ''ArrowLeft'' \<and> e \<noteq> KeyDown ''ArrowRight''"
      by (auto simp: allowed_def)
    from assms(1) st have zoom: "zoom_in_range (dispatch frames s e)"
      by (simp add: settled_def dispatch_keeps_zoom [OF _ del])
    show ?thesis
    proof (cases "frames = []")
      case True
      with assms(1) st arrows have "currentFrameIndex (dispatch [] s e) = Finite 0"
        by (simp add: settled_def dispatch_on_empty)
      with True zoom st ToViewer show ?thesis by (simp add: settled_def)
    next
      case False
      with assms(1) st have "index_in_range frames (dispatch frames s e)"
        by (simp add: settled_def dispatch_keeps_index [OF _ del])
      with False zoom assms(1) st ToViewer show ?thesis by (simp add: settled_def)
    qed
  next
    case (FramesExtracted fs)
    with assms(2) have len: "length fs = FRAME_SIZE" by (simp add: allowed_def)
    then have ne: "fs \<noteq> []" by (auto simp: FRAME_SIZE_def)
    have "index_in_range fs s"
    proof (cases "frames = []")
      case True
      with assms(1) st have "currentFrameIndex s = Finite 0" by (simp add: settled_def)
      with ne show ?thesis by (simp add: index_in_range_def)
    next
      case False
      with assms(1) st have "length frames = FRAME_SIZE" "index_in_range frames s"
        by (simp_all add: settled_def)
      with len show ?thesis by (simp add: index_in_range_iff)
    qed
    with assms(1) st len ne FramesExtracted show ?thesis by (simp add: settled_def)
  next
    case Remounted
    with assms(1) st show ?thesis
      by (auto simp: settled_def zoom_in_range_def index_in_range_def initial_state_def
          FRAME_SIZE_def)
  qed
qed

lemma foldl_page_step_settled:
  "settled st \<Longrightarrow> admissible st evs \<Longrightarrow> settled (foldl page_step st evs)"
proof (induction evs arbitrary: st)
  case Nil
  then show ?case by simp
next
  case (Cons ev evs)
  from Cons.prems have "settled (page_step st ev)" "admissible (page_step st ev) evs"
    by (simp_all add: page_step_settled)
  then have "settled (foldl page_step (page_step st ev) evs)" by (rule Cons.IH)
  then show ?case by simp
qed

text \<open>
  What an arrow key pressed on the empty sequence leads to: the index is \<open>NaN\<close> and is
  still \<open>NaN\<close> after the frames have arrived and after wheel, arrow keys and ticks.
\<close>

lemma arrow_on_empty_persists:
  "currentFrameIndex
     (snd (run [ToViewer (KeyDown ''ArrowRight''), FramesExtracted five_frames,
                ToViewer (Wheel 1), ToViewer (KeyDown ''ArrowLeft''), ToViewer (KeyDown '' ''),
                ToViewer Tick])) = NaN"
  by (simp add: run_def dispatch_def handleKeyPress_def handleWheel_def autoPlayTick_def
      frames_length_def five_frames_def initial_state_def)

section \<open>The extractor's claims\<close>

text \<open>
  C1. For a video of positive duration \<open>D\<close> and a requested count \<open>n \<ge> 1\<close>: on a
  platform with canvas and context that answers every seek and captures every frame,
  \<open>extractFrames\<close> returns exactly \<open>n\<close> frames, and its effects are, for \<open>i\<close> from 0
  to \<open>n - 1\<close> in turn, the seek to \<open>i * D / n\<close>, the drawing on the canvas and the
  progress report. Whatever the platform does, a non-empty result has exactly \<open>n\<close>
  frames, it is returned only when every one of the \<open>n\<close> seeks was answered, and its
  i-th frame is what was captured after the i-th seek, at time \<open>i * D / n\<close>. Every time
  sought is one of the \<open>i * D / n\<close> with \<open>i < n\<close>, is not negative and is strictly less
  than \<open>D\<close>.
\<close>

theorem extractFrames_count:
  assumes "0 < duration v" and "1 \<le> n"
  shows "(canvasRef pf \<and> context2d pf \<and> answers pf (duration v / real n) n \<longrightarrow>
            (\<exists>frames. snd (extractFrames pf v n) = Returned frames \<and> length frames = n)
          \<and> seek_times (fst (extractFrames pf v n)) = map (\<lambda>i. real i * duration v / real n) [0..<n]
          \<and> fst (extractFrames pf v n) =
              concat (map (\<lambda>i. [SetCurrentTime (real i * duration v / real n),
                                 DrawImage (fst (canvas_size v)) (snd (canvas_size v)),
                                 SetProgress (real (i + 1) / real n * 100)]) [0..<n]))
       \<and> (\<forall>frames. snd (extractFrames pf v n) = Returned frames \<and> frames \<noteq> [] \<longrightarrow>
            length frames = n
            \<and> canvasRef pf \<and> context2d pf \<and> answers pf (duration v / real n) n
            \<and> map Some frames = map (\<lambda>i. capture pf i (real i * duration v / real n)) [0..<n])
       \<and> (\<forall>t \<in> set (seek_times (fst (extractFrames pf v n))).
            (\<exists>i<n. t = real i * duration v / real n) \<and> 0 \<le> t \<and> t < duration v)"
proof (intro conjI impI allI ballI; (elim conjE)?)
  assume a: "canvasRef pf" "context2d pf" "answers pf (duration v / real n) n"
  from extractFrames_complete [OF a]
  show "\<exists>frames. snd (extractFrames pf v n) = Returned frames \<and> length frames = n"
    and "seek_times (fst (extractFrames pf v n)) = map (\<lambda>i. real i * duration v / real n) [0..<n]"
    by simp_all
  from extractFrames_trace [OF a]
  show "fst (extractFrames pf v n) =
      concat (map (\<lambda>i. [SetCurrentTime (real i * duration v / real n),
                         DrawImage (fst (canvas_size v)) (snd (canvas_size v)),
                         SetProgress (real (i + 1) / real n * 100)]) [0..<n])"
    by simp
next
  fix frames
  assume r: "snd (extractFrames pf v n) = Returned frames" "frames \<noteq> []"
  with extractFrames_returned_length show "length frames = n" by blast
  from extractFrames_returned [OF r]
  show "canvasRef pf" "context2d pf" "answers pf (duration v / real n) n"
    and "map Some frames = map (\<lambda>i. capture pf i (real i * duration v / real n)) [0..<n]"
    by simp_all
next
  fix t
  assume t: "t \<in> set (seek_times (fst (extractFrames pf v n)))"
  then have "t \<in> set (seek_times (fst (sample_loop pf (duration v / real n) (canvas_size v) n 0 [])))"
    by (simp add: extractFrames_def Let_def split: if_splits)
  then obtain j where j: "j < n" "t = real j * (duration v / real n)"
    using sample_loop_seek_times by blast
  then show "\<exists>i<n. t = real i * duration v / real n" by auto
  from j assms show "0 \<le> t" by simp
  from j assms have "real j * duration v < real n * duration v" and "0 < real n" by simp_all
  then have "real j * duration v / real n < real n * duration v / real n"
    by (rule divide_strict_right_mono)
  with j assms show "t < duration v" by simp
qed

text \<open>
  Ten samples of the ten-second video, on a platform whose captures show the time they
  were taken at: the first five frames are early ones, the last five late ones.
\<close>

theorem extractFrames_count_witness:
  "0 < duration synthetic_video \<and> (1::nat) \<le> 10
   \<and> snd (extractFrames
        ((steady_platform synthetic_video)
           \<lparr>capture := \<lambda>i t. Some (if t < 5 then ''early'' else ''late'')\<rparr>)
        synthetic_video 10)
      = Returned [''early'', ''early'', ''early'', ''early'', ''early'',
                  ''late'', ''late'', ''late'', ''late'', ''late'']
   \<and> seek_times (fst (extractFrames
        ((steady_platform synthetic_video)
           \<lparr>capture := \<lambda>i t. Some (if t < 5 then ''early'' else ''late'')\<rparr>)
        synthetic_video 10)) =
       [0, 1, 2, 3, 4, 5, 6, 7, 8, 9]"
proof -
  let ?pf = "(steady_platform synthetic_video)
     \<lparr>capture := \<lambda>i t. Some (if t < 5 then ''early'' else ''late'')\<rparr>"
  have upt: "[0..<10] = [0, 1, 2, 3, 4, 5, 6, 7, 8, 9::nat]" by (simp add: upt_rec)
  have d: "0 < duration synthetic_video" "(1::nat) \<le> 10" "duration synthetic_video = 10"
    by (simp_all add: synthetic_video_def)
  have ok: "canvasRef ?pf \<and> context2d ?pf \<and> answers ?pf (duration synthetic_video / real 10) 10"
    by (simp add: steady_platform_def answers_def)
  note count = extractFrames_count [OF d(1,2), of ?pf]
  from count ok obtain frames where f: "snd (extractFrames ?pf synthetic_video 10) = Returned frames"
      "length frames = 10"
    and st: "seek_times (fst (extractFrames ?pf synthetic_video 10)) =
      map (\<lambda>i. real i * duration synthetic_video / real 10) [0..<10]"
    by blast
  from f have "frames \<noteq> []" by auto
  with count f(1) have "map Some frames =
      map (\<lambda>i. capture ?pf i (real i * duration synthetic_video / real 10)) [0..<10]"
    by blast
  also have "\<dots> = map Some [''early'', ''early'', ''early'', ''early'', ''early'',
      ''late'', ''late'', ''late'', ''late'', ''late'']"
    unfolding upt by (simp add: d(3))
  finally have "frames = [''early'', ''early'', ''early'', ''early'', ''early'',
      ''late'', ''late'', ''late'', ''late'', ''late'']"
    by (simp only: inj_map_eq_map [OF inj_Some])
  moreover from st have "seek_times (fst (extractFrames ?pf synthetic_video 10)) =
      [0, 1, 2, 3, 4, 5, 6, 7, 8, 9]"
    unfolding upt by (simp add: d(3))
  ultimately show ?thesis using f(1) d by simp
qed

text \<open>
  C4, as amended. The progress values set while \<open>isExtracting\<close> is true are
  non-decreasing in every run of \<open>handleExtractFrames\<close>; when the handler passes its
  guard the first of them is the reset to 0; and when the video loads, canvas and context
  are there and the platform answers every seek and captures every frame, they are 0
  followed by \<open>(i + 1) / 100 * 100\<close> for \<open>i\<close> from 0 to 99, so the last one is 100.
\<close>

theorem progress_monotone:
  "sorted (progress_reports False (fst (handleExtractFrames pf s)))
   \<and> (videoFile s \<noteq> None \<and> videoRef pf \<longrightarrow>
        hd (progress_reports False (fst (handleExtractFrames pf s))) = 0)
   \<and> (videoFile s \<noteq> None \<and> videoRef pf \<and> load pf = LoadedMetadata v
        \<and> canvasRef pf \<and> context2d pf
        \<and> answers pf (duration v / real FRAME_SIZE) FRAME_SIZE \<longrightarrow>
        progress_reports False (fst (handleExtractFrames pf s)) =
          0 # map (\<lambda>i. real (i + 1) / real FRAME_SIZE * 100) [0..<FRAME_SIZE]
        \<and> last (progress_reports False (fst (handleExtractFrames pf s))) = 100)"
proof (intro conjI impI; (elim conjE)?)
  show "sorted (progress_reports False (fst (handleExtractFrames pf s)))"
  proof (cases "videoFile s \<noteq> None \<and> videoRef pf")
    case False
    then show ?thesis by (auto simp: handleExtractFrames_def)
  next
    case True
    show ?thesis
    proof (cases "load pf")
      case (LoadedMetadata w)
      obtain k where "progress_reports True (fst (extractFrames pf w FRAME_SIZE)) =
          map (\<lambda>j. real (j + 1) / real FRAME_SIZE * 100) [0..<k]"
        using extractFrames_reports by blast
      with True LoadedMetadata sorted_percentages [of FRAME_SIZE k] show ?thesis
        by (simp add: handler_reports)
    qed (use True in \<open>simp_all add: handler_reports\<close>)
  qed
next
  assume "videoFile s \<noteq> None" "videoRef pf"
  then show "hd (progress_reports False (fst (handleExtractFrames pf s))) = 0"
    by (simp add: handler_reports)
next
  assume a: "videoFile s \<noteq> None" "videoRef pf" "load pf = LoadedMetadata v"
    and b: "canvasRef pf" "context2d pf" "answers pf (duration v / real FRAME_SIZE) FRAME_SIZE"
  from extractFrames_complete [OF b] a
  show eq: "progress_reports False (fst (handleExtractFrames pf s)) =
      0 # map (\<lambda>i. real (i + 1) / real FRAME_SIZE * 100) [0..<FRAME_SIZE]"
    by (simp add: handler_reports)
  have "0 < FRAME_SIZE" by (simp add: FRAME_SIZE_def)
  then show "last (progress_reports False (fst (handleExtractFrames pf s))) = 100"
    unfolding eq by (rule last_percentage)
qed

text \<open>The run on the platform on which everything works.\<close>

theorem progress_monotone_witness:
  "videoFile selected \<noteq> None \<and> videoRef (steady_platform synthetic_video)
   \<and> sorted (progress_reports False (fst (handleExtractFrames (steady_platform synthetic_video) selected)))
   \<and> hd (progress_reports False (fst (handleExtractFrames (steady_platform synthetic_video) selected))) = 0
   \<and> last (progress_reports False (fst (handleExtractFrames (steady_platform synthetic_video) selected))) = 100"
proof -
  let ?pf = "steady_platform synthetic_video"
  have "videoFile selected \<noteq> None \<and> videoRef ?pf \<and> load ?pf = LoadedMetadata synthetic_video
      \<and> canvasRef ?pf \<and> context2d ?pf
      \<and> answers ?pf (duration synthetic_video / real FRAME_SIZE) FRAME_SIZE"
    by (simp add: steady_platform_def selected_def answers_def)
  with progress_monotone [of ?pf selected synthetic_video] show ?thesis by blast
qed

text \<open>
  C4 as stated fails for an extraction whose video does not load: the \<open>catch\<close> clause
  is reached with 0 as the only value reported, so the final report is not 100.
\<close>

theorem progress_final_counterexample:
  "progress_reports False
      (fst (handleExtractFrames ((steady_platform synthetic_video)\<lparr>load := LoadError\<rparr>) selected))
     = [0]
   \<and> last (progress_reports False
      (fst (handleExtractFrames ((steady_platform synthetic_video)\<lparr>load := LoadError\<rparr>) selected)))
     \<noteq> 100"
  by (simp add: handleExtractFrames_def try_block_def steady_platform_def selected_def)

text \<open>
  C6. For a video with positive natural dimensions (below \<open>2 ^ 32\<close>, as the DOM stores
  them) neither canvas dimension exceeds \<open>maxDimension\<close> (800). The longer edge of the
  canvas is the video's longer edge capped at 800, and the other edge is at most the
  exactly proportional value and at most one pixel below it: in cross-multiplied form,
  \<open>height * videoWidth \<le> width * videoHeight \<le> (height + 1) * videoWidth\<close> for a
  landscape video, and the same with the roles exchanged otherwise. The size is computed
  once: every \<open>drawImage\<close> of the extraction is given this size.
\<close>

theorem canvas_aspect_and_cap:
  assumes "0 < videoWidth v" and "0 < videoHeight v"
    and "videoWidth v < 2 ^ 32" and "videoHeight v < 2 ^ 32"
  shows "fst (canvas_size v) \<le> maxDimension \<and> snd (canvas_size v) \<le> maxDimension
   \<and> (videoHeight v < videoWidth v \<longrightarrow>
        fst (canvas_size v) = min maxDimension (videoWidth v)
        \<and> snd (canvas_size v) * videoWidth v \<le> fst (canvas_size v) * videoHeight v
        \<and> fst (canvas_size v) * videoHeight v \<le> (snd (canvas_size v) + 1) * videoWidth v)
   \<and> (videoWidth v \<le> videoHeight v \<longrightarrow>
        snd (canvas_size v) = min maxDimension (videoHeight v)
        \<and> fst (canvas_size v) * videoHeight v \<le> snd (canvas_size v) * videoWidth v
        \<and> snd (canvas_size v) * videoWidth v \<le> (fst (canvas_size v) + 1) * videoHeight v)
   \<and> set (drawn_sizes (fst (extractFrames pf v n))) \<subseteq> {canvas_size v}"
proof (cases "videoHeight v < videoWidth v")
  case True
  note e = canvas_size_landscape [OF True assms(2,3)]
  have "min maxDimension (videoWidth v) \<le> maxDimension" by simp
  with e have "fst (canvas_size v) \<le> maxDimension" "snd (canvas_size v) \<le> maxDimension"
    by simp_all
  with True e extractFrames_drawn_sizes [of pf v n] show ?thesis by simp
next
  case False
  then have le: "videoWidth v \<le> videoHeight v" by simp
  note e = canvas_size_portrait [OF le assms(1,4)]
  have "min maxDimension (videoHeight v) \<le> maxDimension" by simp
  with e have "fst (canvas_size v) \<le> maxDimension" "snd (canvas_size v) \<le> maxDimension"
    by simp_all
  with False e extractFrames_drawn_sizes [of pf v n] show ?thesis by simp
qed

text \<open>
  A 648 by 480 video is drawn on a 648 by 479 canvas: the doubles give
  479.99999999999994 for the height, which is truncated. A 1920 by 1080 video is drawn
  on an 800 by 450 canvas.
\<close>

theorem canvas_aspect_and_cap_witness:
  "(0::nat) < 648 \<and> (0::nat) < 480 \<and> (648::nat) < 2 ^ 32 \<and> (480::nat) < 2 ^ 32
   \<and> canvas_size \<lparr>duration = 10, videoWidth = 648, videoHeight = 480\<rparr> = (648, 479)
   \<and> canvas_size synthetic_video = (800, 450)
   \<and> fst (canvas_size synthetic_video) \<le> maxDimension
   \<and> snd (canvas_size synthetic_video) * videoWidth synthetic_video
        \<le> fst (canvas_size synthetic_video) * videoHeight synthetic_video"
proof -
  have vga: "canvas_size \<lparr>duration = 10, videoWidth = 648, videoHeight = 480\<rparr> = (648, 479)"
  proof -
    have a: "round_double (27 / 20) = 6079859496950170 / 2 ^ 52"
      by (subst round_double_eval [where e = 0]) (simp_all add: round_half_even_def Let_def)
    have y: "round_double (648 / (6079859496950170 / 2 ^ 52)) = 8444249301319679 / 2 ^ 44"
      by (subst round_double_eval [where e = 8]) (simp_all add: round_half_even_def Let_def)
    have t: "to_unsigned_long (8444249301319679 / 2 ^ 44) = 479"
      by (simp add: to_unsigned_long_def)
    have w: "to_unsigned_long 648 = 648" by (simp add: to_unsigned_long_def)
    have "canvas_size \<lparr>duration = 10, videoWidth = 648, videoHeight = 480\<rparr> =
        (648, to_unsigned_long (round_double (648 / round_double (27 / 20))))"
      by (simp add: canvas_size_def w maxDimension_def Let_def)
    then show ?thesis by (simp only: a y t)
  qed
  have hd: "canvas_size synthetic_video = (800, 450)"
  proof -
    have a: "round_double (16 / 9) = 8006399337547548 / 2 ^ 52"
      by (subst round_double_eval [where e = 0]) (simp_all add: round_half_even_def Let_def)
    have y: "round_double (800 / (8006399337547548 / 2 ^ 52)) = 7916483719987200 / 2 ^ 44"
      by (subst round_double_eval [where e = 8]) (simp_all add: round_half_even_def Let_def)
    have t: "to_unsigned_long (7916483719987200 / 2 ^ 44) = 450"
      by (simp add: to_unsigned_long_def)
    have w: "to_unsigned_long 800 = 800" by (simp add: to_unsigned_long_def)
    have "canvas_size synthetic_video =
        (800, to_unsigned_long (round_double (800 / round_double (16 / 9))))"
      by (simp add: canvas_size_def synthetic_video_def w maxDimension_def Let_def)
    then show ?thesis by (simp only: a y t)
  qed
  have "0 < videoWidth synthetic_video" "0 < videoHeight synthetic_video"
    "videoWidth synthetic_video < 2 ^ 32" "videoHeight synthetic_video < 2 ^ 32"
    "videoHeight synthetic_video < videoWidth synthetic_video"
    by (simp_all add: synthetic_video_def)
  with canvas_aspect_and_cap [of synthetic_video] vga hd show ?thesis by simp
qed

text \<open>
  C7. Every frame sequence that \<open>handleExtractFrames\<close> hands to \<open>onFramesExtracted\<close>
  is non-empty, has all \<open>FRAME_SIZE\<close> frames, and is what \<open>extractFrames\<close> returned.
  When \<open>extractFrames\<close> returns no frames, nothing is handed over and the failure toast
  is shown; and whenever the \<open>try\<close> block does not complete (it throws or never
  settles), nothing is handed over.
\<close>

theorem handover_complete_only:
  "(\<forall>fs \<in> set (handed_over (fst (handleExtractFrames pf s))).
      fs \<noteq> [] \<and> length fs = FRAME_SIZE
      \<and> (\<exists>v. load pf = LoadedMetadata v \<and> snd (extractFrames pf v FRAME_SIZE) = Returned fs))
   \<and> (videoFile s \<noteq> None \<and> videoRef pf \<and> load pf = LoadedMetadata v
        \<and> snd (extractFrames pf v FRAME_SIZE) = Returned [] \<longrightarrow>
        handed_over (fst (handleExtractFrames pf s)) = []
        \<and> ToastError ''Failed to extract frames from video'' \<in> set (fst (handleExtractFrames pf s)))
   \<and> (snd (try_block pf) \<noteq> Returned () \<longrightarrow> handed_over (fst (handleExtractFrames pf s)) = [])"
proof (intro conjI ballI impI; (elim conjE)?)
  fix fs
  assume "fs \<in> set (handed_over (fst (handleExtractFrames pf s)))"
  with handed_over_cases [of pf s]
  obtain w where w: "load pf = LoadedMetadata w"
      "snd (extractFrames pf w FRAME_SIZE) = Returned fs" "fs \<noteq> []"
    by auto
  then show "fs \<noteq> []" by simp
  from w extractFrames_returned_length [of pf w FRAME_SIZE fs]
  show "length fs = FRAME_SIZE" by simp
  from w show "\<exists>v. load pf = LoadedMetadata v \<and> snd (extractFrames pf v FRAME_SIZE) = Returned fs"
    by blast
next
  assume a: "videoFile s \<noteq> None" "videoRef pf" "load pf = LoadedMetadata v"
    "snd (extractFrames pf v FRAME_SIZE) = Returned []"
  with handed_over_cases [of pf s] show "handed_over (fst (handleExtractFrames pf s)) = []"
    by auto
  from a show "ToastError ''Failed to extract frames from video'' \<in> set (fst (handleExtractFrames pf s))"
    by (simp add: handleExtractFrames_def try_block_def Let_def)
next
  assume a: "snd (try_block pf) \<noteq> Returned ()"
  show "handed_over (fst (handleExtractFrames pf s)) = []"
  proof (rule ccontr)
    assume "handed_over (fst (handleExtractFrames pf s)) \<noteq> []"
    with handed_over_cases [of pf s]
    obtain w fs where "load pf = LoadedMetadata w"
      "snd (extractFrames pf w FRAME_SIZE) = Returned fs" "fs \<noteq> []"
      by auto
    then have "snd (try_block pf) = Returned ()"
      by (simp add: try_block_def Let_def)
    with a show False by simp
  qed
qed

text \<open>
  Without a canvas the extraction yields no frames and fails; on the platform on which
  everything works exactly one sequence, of \<open>FRAME_SIZE\<close> frames, is handed over.
\<close>

theorem handover_complete_only_witness:
  "videoFile selected \<noteq> None
   \<and> handed_over (fst (handleExtractFrames
        ((steady_platform synthetic_video)\<lparr>canvasRef := False\<rparr>) selected)) = []
   \<and> ToastError ''Failed to extract frames from video''
        \<in> set (fst (handleExtractFrames
             ((steady_platform synthetic_video)\<lparr>canvasRef := False\<rparr>) selected))
   \<and> (\<exists>fs. handed_over (fst (handleExtractFrames (steady_platform synthetic_video) selected)) = [fs]
        \<and> length fs = FRAME_SIZE)"
proof -
  let ?pf = "steady_platform synthetic_video"
  let ?bare = "?pf\<lparr>canvasRef := False\<rparr>"
  have sel: "videoFile selected \<noteq> None" by (simp add: selected_def)
  have "videoRef ?bare" "load ?bare = LoadedMetadata synthetic_video"
    "snd (extractFrames ?bare synthetic_video FRAME_SIZE) = Returned []"
    by (simp_all add: steady_platform_def extractFrames_def)
  with sel handover_complete_only [of ?bare selected synthetic_video]
  have bare: "handed_over (fst (handleExtractFrames ?bare selected)) = []"
    "ToastError ''Failed to extract frames from video'' \<in> set (fst (handleExtractFrames ?bare selected))"
    by blast+
  have "canvasRef ?pf" "context2d ?pf"
    "answers ?pf (duration synthetic_video / real FRAME_SIZE) FRAME_SIZE"
    by (simp_all add: steady_platform_def answers_def)
  from extractFrames_complete [OF this]
  obtain fs where fs: "snd (extractFrames ?pf synthetic_video FRAME_SIZE) = Returned fs"
      "length fs = FRAME_SIZE"
    by blast
  then have ne: "fs \<noteq> []" by (auto simp: FRAME_SIZE_def)
  have "videoRef ?pf" "load ?pf = LoadedMetadata synthetic_video"
    by (simp_all add: steady_platform_def)
  from handed_over_success [OF sel this fs(1) ne]
  have "handed_over (fst (handleExtractFrames ?pf selected)) = [fs]" .
  with fs(2) sel bare show ?thesis by blast
qed

text \<open>
  C8. A selected file whose type does not start with \<open>video/\<close> only produces the error
  toast: no setter is called, so the extractor state (the stored video file included) is
  what it was.
\<close>

theorem reject_non_video:
  assumes "\<not> startsWith (file_type f) ''video/''"
  shows "handleFileSelect (Some f) = [ToastError ''Please select a valid video file'']
   \<and> apply_effects s (handleFileSelect (Some f)) = s"
  using assms by (simp add: handleFileSelect_def apply_effects_def)

text \<open>A text file is turned down and the earlier selection stays.\<close>

theorem reject_non_video_witness:
  "\<not> startsWith (file_type \<lparr>file_name = ''notes.txt'', file_type = ''text/plain''\<rparr>) ''video/''
   \<and> apply_effects selected
        (handleFileSelect (Some \<lparr>file_name = ''notes.txt'', file_type = ''text/plain''\<rparr>)) = selected"
proof -
  have "\<not> startsWith (file_type \<lparr>file_name = ''notes.txt'', file_type = ''text/plain''\<rparr>) ''video/''"
    by (simp add: startsWith_def)
  with reject_non_video [of "\<lparr>file_name = ''notes.txt'', file_type = ''text/plain''\<rparr>" selected]
  show ?thesis by blast
qed

text \<open>
  C9. \<open>FRAME_SIZE\<close> is 100. Once the video has loaded, the \<open>try\<close> block of
  \<open>handleExtractFrames\<close> runs \<open>extractFrames\<close> with a frame count of 100: its effects
  follow the loading toast, every sequence handed over has 100 frames, and a run that
  nothing stops seeks to the 100 times \<open>i * duration / 100\<close>. The only number in the
  sentence of the Auto Extract card is 50.
\<close>

theorem default_sample_count:
  "FRAME_SIZE = 100
   \<and> (load pf = LoadedMetadata v \<longrightarrow>
        (\<exists>rest. fst (try_block pf) =
           ToastSuccess ''Video loaded successfully, extracting frames...''
             # fst (extractFrames pf v 100) @ rest))
   \<and> (\<forall>fs \<in> set (handed_over (fst (handleExtractFrames pf s))). length fs = 100)
   \<and> (videoFile s \<noteq> None \<and> videoRef pf \<and> load pf = LoadedMetadata v
        \<and> canvasRef pf \<and> context2d pf \<and> answers pf (duration v / 100) 100 \<longrightarrow>
        seek_times (fst (handleExtractFrames pf s)) = map (\<lambda>i. real i * duration v / 100) [0..<100])
   \<and> filter (\<lambda>c. c \<in> set ''0123456789'') auto_extract_copy = ''50''"
proof (intro conjI ballI impI; (elim conjE)?)
  show "FRAME_SIZE = 100" by (simp add: FRAME_SIZE_def)
next
  assume l: "load pf = LoadedMetadata v"
  show "\<exists>rest. fst (try_block pf) =
      ToastSuccess ''Video loaded successfully, extracting frames...''
        # fst (extractFrames pf v 100) @ rest"
  proof (cases "snd (extractFrames pf v 100)")
    case (Returned fs)
    with l show ?thesis by (cases "fs = []") (simp_all add: try_block_def FRAME_SIZE_def)
  next
    case Threw
    with l show ?thesis by (simp add: try_block_def FRAME_SIZE_def)
  next
    case Pending
    with l show ?thesis by (simp add: try_block_def FRAME_SIZE_def)
  qed
next
  fix fs
  assume "fs \<in> set (handed_over (fst (handleExtractFrames pf s)))"
  with handed_over_cases [of pf s]
  obtain w where w: "snd (extractFrames pf w FRAME_SIZE) = Returned fs" "fs \<noteq> []"
    by auto
  with extractFrames_returned_length [of pf w FRAME_SIZE fs]
  show "length fs = 100" by (simp add: FRAME_SIZE_def)
next
  assume a: "videoFile s \<noteq> None" "videoRef pf" "load pf = LoadedMetadata v"
    and b: "canvasRef pf" "context2d pf" "answers pf (duration v / 100) 100"
  from b have "answers pf (duration v / real FRAME_SIZE) FRAME_SIZE"
    by (simp add: FRAME_SIZE_def)
  from extractFrames_complete [OF b(1,2) this] a
  show "seek_times (fst (handleExtractFrames pf s)) = map (\<lambda>i. real i * duration v / 100) [0..<100]"
    by (simp add: handler_seek_times FRAME_SIZE_def)
next
  show "filter (\<lambda>c. c \<in> set ''0123456789'') auto_extract_copy = ''50''"
    by (simp add: auto_extract_copy_def)
qed

text \<open>On the platform on which everything works there are 100 seeks, and the card does not say 100.\<close>

theorem default_sample_count_witness:
  "videoFile selected \<noteq> None
   \<and> length (seek_times (fst (handleExtractFrames (steady_platform synthetic_video) selected))) = 100
   \<and> filter (\<lambda>c. c \<in> set ''0123456789'') auto_extract_copy \<noteq> ''100''"
proof -
  let ?pf = "steady_platform synthetic_video"
  have "videoFile selected \<noteq> None \<and> videoRef ?pf \<and> load ?pf = LoadedMetadata synthetic_video
      \<and> canvasRef ?pf \<and> context2d ?pf \<and> answers ?pf (duration synthetic_video / 100) 100"
    by (simp add: steady_platform_def selected_def answers_def)
  with default_sample_count [of ?pf synthetic_video selected]
  have "videoFile selected \<noteq> None"
    and "seek_times (fst (handleExtractFrames ?pf selected)) =
      map (\<lambda>i. real i * duration synthetic_video / 100) [0..<100]"
    and "filter (\<lambda>c. c \<in> set ''0123456789'') auto_extract_copy = ''50''"
    by blast+
  then show ?thesis by simp
qed

section \<open>The viewer's claims\<close>

text \<open>
  C2, as amended. The page starts with the empty sequence and the viewer's initial
  state. After any sequence of inputs (wheel, keys, mouse, buttons, timer ticks, slider
  values within the ranges the sliders are given, frame sequences of \<open>FRAME_SIZE\<close>
  frames arriving from the extractor, remounts) in which no arrow key is pressed while
  the sequence is empty, \<open>0.5 \<le> zoomLevel \<le> 5\<close> holds, and whenever the sequence is
  not empty, \<open>0 \<le> currentFrameIndex < frames.length\<close>.
\<close>

theorem viewer_invariants:
  assumes "admissible ([], initial_state) evs"
  shows "zoom_in_range (snd (run evs))
       \<and> (fst (run evs) \<noteq> [] \<longrightarrow> index_in_range (fst (run evs)) (snd (run evs)))"
proof -
  from initial_state_settled assms have "settled (run evs)"
    unfolding run_def by (rule foldl_page_step_settled)
  then show ?thesis by (simp add: settled_def)
qed

text \<open>
  Inputs of every kind, before and after the frames arrive, with a second extraction and
  a remount.
\<close>

theorem viewer_invariants_witness:
  "fst (run [ToViewer (KeyDown '' ''), ToViewer (Wheel 1), FramesExtracted (replicate 100 ''frame''),
             ToViewer (Wheel 1), ToViewer (Wheel 1), ToViewer (Wheel 1),
             ToViewer (KeyDown ''ArrowLeft''), ToViewer (FrameSlider 99), ToViewer Tick,
             ToViewer (ZoomSlider 5), ToViewer (KeyDown ''ArrowRight''),
             FramesExtracted (replicate 100 ''other''), Remounted,
             ToViewer (KeyDown ''ArrowLeft'')]) \<noteq> []
   \<and> index_in_range
        (fst (run [ToViewer (KeyDown '' ''), ToViewer (Wheel 1), FramesExtracted (replicate 100 ''frame''),
             ToViewer (Wheel 1), ToViewer (Wheel 1), ToViewer (Wheel 1),
             ToViewer (KeyDown ''ArrowLeft''), ToViewer (FrameSlider 99), ToViewer Tick,
             ToViewer (ZoomSlider 5), ToViewer (KeyDown ''ArrowRight''),
             FramesExtracted (replicate 100 ''other''), Remounted,
             ToViewer (KeyDown ''ArrowLeft'')]))
        (snd (run [ToViewer (KeyDown '' ''), ToViewer (Wheel 1), FramesExtracted (replicate 100 ''frame''),
             ToViewer (Wheel 1), ToViewer (Wheel 1), ToViewer (Wheel 1),
             ToViewer (KeyDown ''ArrowLeft''), ToViewer (FrameSlider 99), ToViewer Tick,
             ToViewer (ZoomSlider 5), ToViewer (KeyDown ''ArrowRight''),
             FramesExtracted (replicate 100 ''other''), Remounted,
             ToViewer (KeyDown ''ArrowLeft'')]))
   \<and> zoom_in_range
        (snd (run [ToViewer (KeyDown '' ''), ToViewer (Wheel 1), FramesExtracted (replicate 100 ''frame''),
             ToViewer (Wheel 1), ToViewer (Wheel 1), ToViewer (Wheel 1),
             ToViewer (KeyDown ''ArrowLeft''), ToViewer (FrameSlider 99), ToViewer Tick,
             ToViewer (ZoomSlider 5), ToViewer (KeyDown ''ArrowRight''),
             FramesExtracted (replicate 100 ''other''), Remounted,
             ToViewer (KeyDown ''ArrowLeft'')]))"
proof -
  let ?evs = "[ToViewer (KeyDown '' ''), ToViewer (Wheel 1), FramesExtracted (replicate 100 ''frame''),
     ToViewer (Wheel 1), ToViewer (Wheel 1), ToViewer (Wheel 1),
     ToViewer (KeyDown ''ArrowLeft''), ToViewer (FrameSlider 99), ToViewer Tick,
     ToViewer (ZoomSlider 5), ToViewer (KeyDown ''ArrowRight''),
     FramesExtracted (replicate 100 ''other''), Remounted,
     ToViewer (KeyDown ''ArrowLeft'')]"
  have adm: "admissible ([], initial_state) ?evs"
    by (simp add: allowed_def deliverable_def FRAME_SIZE_def dispatch_def)
  have ne: "fst (run ?evs) \<noteq> []"
    by (simp add: run_def)
  from viewer_invariants [OF adm] ne show ?thesis by blast
qed

text \<open>
  C2 as stated fails for the empty frame sequence, which the page starts with: the
  viewer's initial state has index 0, which is not below the length 0.
\<close>

theorem viewer_invariants_counterexample:
  "\<not> index_in_range (fst (run [])) (snd (run []))"
  by (simp add: index_in_range_def run_def initial_state_def)

text \<open>
  C3. With an empty frame sequence the \<open>keydown\<close> listener is still installed and has
  no guard: from the initial state the right and left arrow keys set
  \<open>currentFrameIndex\<close> to \<open>NaN\<close> (a remainder by 0) and the space bar sets
  \<open>isAutoPlaying\<close>, so the state changes. Wheel, sliders and ticks do leave it unchanged,
  and the placeholder is rendered.
\<close>

theorem empty_guard_keys:
  "currentFrameIndex (dispatch [] initial_state (KeyDown ''ArrowRight'')) = NaN
   \<and> currentFrameIndex (dispatch [] initial_state (KeyDown ''ArrowLeft'')) = NaN
   \<and> isAutoPlaying (dispatch [] initial_state (KeyDown '' ''))
   \<and> dispatch [] initial_state (KeyDown ''ArrowRight'') \<noteq> initial_state
   \<and> dispatch [] initial_state (KeyDown '' '') \<noteq> initial_state
   \<and> dispatch [] initial_state (Wheel 1) = initial_state
   \<and> dispatch [] initial_state (FrameSlider 3) = initial_state
   \<and> dispatch [] initial_state (ZoomSlider 2) = initial_state
   \<and> dispatch [] initial_state Tick = initial_state
   \<and> render [] (dispatch [] initial_state (KeyDown ''ArrowRight'')) = Placeholder"
  by (simp add: dispatch_def handleKeyPress_def frames_length_def initial_state_def render_def)

text \<open>
  C5. For every non-empty frame sequence: \<open>handleWheel\<close> always gives an index in
  \<open>[0, len - 1]\<close>, a downward scroll at the last index stays there and an upward scroll
  at index 0 stays there; the right arrow and the auto-play tick at the last index give
  index 0, the left arrow at index 0 gives the last index, and from any index in range
  they give \<open>(i + 1) mod len\<close> and \<open>(i - 1) mod len\<close>.
\<close>

theorem wheel_clamps_keys_wrap:
  assumes "frames \<noteq> []"
  shows "(\<forall>i. currentFrameIndex s = Finite i \<longrightarrow>
            (\<exists>j. currentFrameIndex (handleWheel frames deltaY s) = Finite j
               \<and> 0 \<le> j \<and> j \<le> int (length frames) - 1))
       \<and> (currentFrameIndex s = Finite (int (length frames) - 1) \<longrightarrow>
            (0 < deltaY \<longrightarrow>
               currentFrameIndex (handleWheel frames deltaY s) = Finite (int (length frames) - 1))
            \<and> currentFrameIndex (handleKeyPress frames ''ArrowRight'' s) = Finite 0
            \<and> currentFrameIndex (autoPlayTick frames s) = Finite 0)
       \<and> (currentFrameIndex s = Finite 0 \<longrightarrow>
            (deltaY \<le> 0 \<longrightarrow> currentFrameIndex (handleWheel frames deltaY s) = Finite 0)
            \<and> currentFrameIndex (handleKeyPress frames ''ArrowLeft'' s)
                = Finite (int (length frames) - 1))
       \<and> (\<forall>i. currentFrameIndex s = Finite i \<and> 0 \<le> i \<and> i < int (length frames) \<longrightarrow>
            currentFrameIndex (handleKeyPress frames ''ArrowRight'' s)
              = Finite ((i + 1) mod int (length frames))
            \<and> currentFrameIndex (handleKeyPress frames ''ArrowLeft'' s)
              = Finite ((i - 1) mod int (length frames))
            \<and> currentFrameIndex (autoPlayTick frames s)
              = Finite ((i + 1) mod int (length frames)))"
proof -
  from assms have pos: "0 < int (length frames)" by simp
  have wheel: "\<forall>i. currentFrameIndex s = Finite i \<longrightarrow>
      (\<exists>j. currentFrameIndex (handleWheel frames deltaY s) = Finite j
         \<and> 0 \<le> j \<and> j \<le> int (length frames) - 1)"
    using pos by (auto simp: handleWheel_index)
  have last: "currentFrameIndex s = Finite (int (length frames) - 1) \<longrightarrow>
      (0 < deltaY \<longrightarrow>
         currentFrameIndex (handleWheel frames deltaY s) = Finite (int (length frames) - 1))
      \<and> currentFrameIndex (handleKeyPress frames ''ArrowRight'' s) = Finite 0
      \<and> currentFrameIndex (autoPlayTick frames s) = Finite 0"
  proof
    assume a: "currentFrameIndex s = Finite (int (length frames) - 1)"
    from pos have b: "0 \<le> int (length frames) - 1" by simp
    from pos show "(0 < deltaY \<longrightarrow>
         currentFrameIndex (handleWheel frames deltaY s) = Finite (int (length frames) - 1))
      \<and> currentFrameIndex (handleKeyPress frames ''ArrowRight'' s) = Finite 0
      \<and> currentFrameIndex (autoPlayTick frames s) = Finite 0"
      by (simp add: handleWheel_index [OF a] arrow_right_index [OF a b assms]
          tick_index [OF a b assms])
  qed
  have first: "currentFrameIndex s = Finite 0 \<longrightarrow>
      (deltaY \<le> 0 \<longrightarrow> currentFrameIndex (handleWheel frames deltaY s) = Finite 0)
      \<and> currentFrameIndex (handleKeyPress frames ''ArrowLeft'' s) = Finite (int (length frames) - 1)"
  proof
    assume a: "currentFrameIndex s = Finite 0"
    have "(- 1) mod int (length frames) = int (length frames) - 1"
      using pos by (simp add: zmod_minus1)
    with pos show "(deltaY \<le> 0 \<longrightarrow> currentFrameIndex (handleWheel frames deltaY s) = Finite 0)
      \<and> currentFrameIndex (handleKeyPress frames ''ArrowLeft'' s) = Finite (int (length frames) - 1)"
      using arrow_left_index [OF a _ assms] by (simp add: handleWheel_index [OF a])
  qed
  have wrap: "\<forall>i. currentFrameIndex s = Finite i \<and> 0 \<le> i \<and> i < int (length frames) \<longrightarrow>
      currentFrameIndex (handleKeyPress frames ''ArrowRight'' s)
        = Finite ((i + 1) mod int (length frames))
      \<and> currentFrameIndex (handleKeyPress frames ''ArrowLeft'' s)
        = Finite ((i - 1) mod int (length frames))
      \<and> currentFrameIndex (autoPlayTick frames s)
        = Finite ((i + 1) mod int (length frames))"
    using assms by (simp add: arrow_right_index arrow_left_index tick_index)
  from wheel last first wrap show ?thesis by blast
qed

text \<open>Five frames at index 4: the right arrow wraps to 0, the wheel stays at 4.\<close>

theorem wheel_clamps_keys_wrap_witness:
  "five_frames \<noteq> []
   \<and> currentFrameIndex (handleKeyPress five_frames ''ArrowRight''
        (initial_state\<lparr>currentFrameIndex := Finite 4\<rparr>)) = Finite 0
   \<and> currentFrameIndex (handleWheel five_frames 1
        (initial_state\<lparr>currentFrameIndex := Finite 4\<rparr>)) = Finite 4"
proof -
  have "five_frames \<noteq> []" "int (length five_frames) - 1 = 4" "(0::real) < 1"
    "currentFrameIndex (initial_state\<lparr>currentFrameIndex := Finite 4\<rparr>) = Finite 4"
    by (simp_all add: five_frames_def)
  with wheel_clamps_keys_wrap [of five_frames "initial_state\<lparr>currentFrameIndex := Finite 4\<rparr>" 1]
  show ?thesis by simp
qed

text \<open>
  C10. For a wheel event at an index \<open>i\<close> in range: \<open>deltaY \<le> 0\<close>, zero included,
  gives \<open>max 0 (i - 1)\<close>, and only \<open>deltaY > 0\<close> gives \<open>min (len - 1) (i + 1)\<close>; a
  wheel event with \<open>deltaY = 0\<close> at a positive index moves one frame back and so changes
  the state.
\<close>

theorem wheel_zero_delta_steps_back:
  assumes "currentFrameIndex s = Finite i" and "0 \<le> i" and "i < int (length frames)"
  shows "(deltaY \<le> 0 \<longrightarrow>
            currentFrameIndex (dispatch frames s (Wheel deltaY)) = Finite (max 0 (i - 1)))
       \<and> (0 < deltaY \<longrightarrow>
            currentFrameIndex (dispatch frames s (Wheel deltaY))
              = Finite (min (int (length frames) - 1) (i + 1)))
       \<and> (0 < i \<longrightarrow>
            currentFrameIndex (dispatch frames s (Wheel 0)) = Finite (i - 1)
            \<and> dispatch frames s (Wheel 0) \<noteq> s)"
proof -
  from assms have ne: "length frames \<noteq> 0" by auto
  then have d: "dispatch frames s (Wheel y) = handleWheel frames y s" for y
    by (simp add: dispatch_def)
  have "0 < i \<longrightarrow> currentFrameIndex (handleWheel frames 0 s) \<noteq> currentFrameIndex s"
    using assms by (simp add: handleWheel_index [OF assms(1)])
  then have "0 < i \<longrightarrow> handleWheel frames 0 s \<noteq> s" by auto
  with assms show ?thesis
    unfolding d by (auto simp: handleWheel_index [OF assms(1)])
qed

text \<open>Five frames at index 2: a zero delta gives index 1, a positive one index 3.\<close>

theorem wheel_zero_delta_steps_back_witness:
  "currentFrameIndex (initial_state\<lparr>currentFrameIndex := Finite 2\<rparr>) = Finite 2
   \<and> (0::int) \<le> 2 \<and> 2 < int (length five_frames)
   \<and> currentFrameIndex
        (dispatch five_frames (initial_state\<lparr>currentFrameIndex := Finite 2\<rparr>) (Wheel 0)) = Finite 1
   \<and> currentFrameIndex
        (dispatch five_frames (initial_state\<lparr>currentFrameIndex := Finite 2\<rparr>) (Wheel 3)) = Finite 3"
proof -
  have "currentFrameIndex (initial_state\<lparr>currentFrameIndex := Finite 2\<rparr>) = Finite 2"
    "(0::int) \<le> 2" "2 < int (length five_frames)" "int (length five_frames) - 1 = 4"
    by (simp_all add: five_frames_def)
  with wheel_zero_delta_steps_back
    [of "initial_state\<lparr>currentFrameIndex := Finite 2\<rparr>" 2 five_frames 0]
    wheel_zero_delta_steps_back
    [of "initial_state\<lparr>currentFrameIndex := Finite 2\<rparr>" 2 five_frames 3]
  show ?thesis by simp
qed

end
